theory Spec2Isabelle
  imports Complex_Main "HOL-Library.Word" "HOL-Library.Sublist" "HOL-Library.Multiset"
    "HOL-Library.Log_Nat"
begin

section \<open>Values of the program\<close>

text \<open>
  The program is the React component \<^verbatim>\<open>App\<close> of \<^verbatim>\<open>src/App.tsx\<close>. A JavaScript string is
  a sequence of UTF-16 code units. The regular expression of \<^verbatim>\<open>extractKanjiByLines\<close> has no
  \<^verbatim>\<open>u\<close> flag, so each of its matches is a string of exactly one code unit; such a string is
  represented by its code unit.
\<close>

type_synonym code_unit = "16 word"
type_synonym kanji = code_unit

text \<open>
  A JavaScript number is a double. Two types stand for it. The first, \<open>number\<close>, holds the
  values that the number of characters in a row and the counter of the loop take:
  \<^verbatim>\<open>Math.floor\<close> gives an integer, an infinity or \<^verbatim>\<open>NaN\<close>, and the counter is a sum of such
  values. The negative zero that \<^verbatim>\<open>Math.floor\<close> gives for a negative zero is \<open>Fin 0\<close>: added
  to the counter 0 it gives 0, as the positive zero does. The second type, \<open>double\<close> below,
  is the type of the cell size, with fractions and both zeros.
\<close>

datatype number = NaN | NegInf | Fin int | PosInf

text \<open>\<^verbatim>\<open>a + b\<close> on numbers.\<close>

fun num_add :: "number \<Rightarrow> number \<Rightarrow> number" where
  "num_add NaN _ = NaN"
| "num_add _ NaN = NaN"
| "num_add (Fin a) (Fin b) = Fin (a + b)"
| "num_add PosInf NegInf = NaN"
| "num_add NegInf PosInf = NaN"
| "num_add PosInf _ = PosInf"
| "num_add _ PosInf = PosInf"
| "num_add NegInf _ = NegInf"
| "num_add _ NegInf = NegInf"

text \<open>\<^verbatim>\<open>a < b\<close> on numbers: every comparison with \<^verbatim>\<open>NaN\<close> is false.\<close>

fun num_less :: "number \<Rightarrow> number \<Rightarrow> bool" where
  "num_less NaN _ = False"
| "num_less _ NaN = False"
| "num_less (Fin a) (Fin b) = (a < b)"
| "num_less NegInf NegInf = False"
| "num_less NegInf _ = True"
| "num_less _ NegInf = False"
| "num_less PosInf _ = False"
| "num_less _ PosInf = True"

text \<open>\<^verbatim>\<open>a <= b\<close> on numbers.\<close>

fun num_le :: "number \<Rightarrow> number \<Rightarrow> bool" where
  "num_le NaN _ = False"
| "num_le _ NaN = False"
| "num_le (Fin a) (Fin b) = (a \<le> b)"
| "num_le NegInf _ = True"
| "num_le _ PosInf = True"
| "num_le _ NegInf = False"
| "num_le PosInf _ = False"

section \<open>Doubles\<close>

text \<open>
  A double: \<^verbatim>\<open>NaN\<close>, an infinity, the negative zero, or a rational (\<open>DFin 0\<close> is the positive
  zero). Every finite double is such a rational; a statement about all rationals is about
  all finite doubles and more.
\<close>

datatype double = DNaN | DNegInf | DNegZero | DFin rat | DPosInf

text \<open>The binary exponent of a positive rational: \<open>2 powi e \<le> a < 2 powi (e + 1)\<close>.\<close>

definition ilog2 :: "rat \<Rightarrow> int" where
  "ilog2 a = (if 1 \<le> a then bitlen \<lfloor>a\<rfloor> - 1 else - bitlen (\<lceil>1 / a\<rceil> - 1))"

text \<open>Rounding to the nearest integer, a tie to the even one.\<close>

definition round_half_even :: "rat \<Rightarrow> int" where
  "round_half_even y =
     (if y - of_int \<lfloor>y\<rfloor> < 1 / 2 then \<lfloor>y\<rfloor>
      else if 1 / 2 < y - of_int \<lfloor>y\<rfloor> then \<lfloor>y\<rfloor> + 1
      else if even \<lfloor>y\<rfloor> then \<lfloor>y\<rfloor> else \<lfloor>y\<rfloor> + 1)"

text \<open>
  IEEE 754 binary64, rounding to nearest, ties to even. A positive rational lies on or
  between two multiples of the unit in its last place, which is \<open>2 powi (e - 52)\<close> for the
  exponent \<open>e\<close> of the rational, and never less than \<open>2 powi (- 1074)\<close>, the unit of the
  subnormal doubles.
\<close>

definition round_magnitude :: "rat \<Rightarrow> rat" where
  "round_magnitude a =
     of_int (round_half_even (a / 2 powi (max (ilog2 a) (- 1022) - 52)))
       * 2 powi (max (ilog2 a) (- 1022) - 52)"

text \<open>
  The double of a rational, which is the result of an arithmetic operation whose exact
  result is that rational: a magnitude that rounds to \<open>2 ^ 1024\<close> overflows to an infinity,
  and one that rounds to zero keeps its sign.
\<close>

definition round_double :: "rat \<Rightarrow> double" where
  "round_double x =
     (if x = 0 then DFin 0
      else if 2 ^ 1024 \<le> round_magnitude \<bar>x\<bar> then (if x < 0 then DNegInf else DPosInf)
      else if round_magnitude \<bar>x\<bar> = 0 then (if x < 0 then DNegZero else DFin 0)
      else DFin (if x < 0 then - round_magnitude \<bar>x\<bar> else round_magnitude \<bar>x\<bar>))"

section \<open>The number of cells in a row\<close>

text \<open>\<^verbatim>\<open>190 / x\<close>: the quotient, rounded; the special values as IEEE 754 has them.\<close>

fun divide_190 :: "double \<Rightarrow> double" where
  "divide_190 DNaN = DNaN"
| "divide_190 DPosInf = DFin 0"
| "divide_190 DNegInf = DNegZero"
| "divide_190 DNegZero = DNegInf"
| "divide_190 (DFin q) = (if q = 0 then DPosInf else round_double (190 / q))"

text \<open>\<^verbatim>\<open>Math.floor(x)\<close>\<close>

fun Math_floor :: "double \<Rightarrow> number" where
  "Math_floor DNaN = NaN"
| "Math_floor DPosInf = PosInf"
| "Math_floor DNegInf = NegInf"
| "Math_floor DNegZero = Fin 0"
| "Math_floor (DFin r) = Fin \<lfloor>r\<rfloor>"

text \<open>\<^verbatim>\<open>const maxKanjiPerRow = Math.floor(190 / kanjiSizeMm);\<close>\<close>

definition maxKanjiPerRow :: "double \<Rightarrow> number" where
  "maxKanjiPerRow kanjiSizeMm = Math_floor (divide_190 kanjiSizeMm)"

section \<open>The Character Extractor\<close>

text \<open>
  \<^verbatim>\<open>text.split('\n')\<close>: the pieces between the separators, one more than there are
  separators; the empty string gives one empty piece.
\<close>

fun string_split :: "code_unit \<Rightarrow> code_unit list \<Rightarrow> code_unit list list" where
  "string_split sep [] = [[]]"
| "string_split sep (c # cs) =
     (if c = sep then [] # string_split sep cs
      else (case string_split sep cs of
              [] \<Rightarrow> [[c]]
            | piece # pieces \<Rightarrow> (c # piece) # pieces))"

text \<open>
  \<^verbatim>\<open>const kanjiRegex = /[\u4e00-\u9faf\u3400-\u4dbf]/g;\<close>
  The character class, as a predicate on one code unit.
\<close>

definition kanjiRegex :: "code_unit \<Rightarrow> bool" where
  "kanjiRegex c \<longleftrightarrow> (0x4e00 \<le> c \<and> c \<le> 0x9faf) \<or> (0x3400 \<le> c \<and> c \<le> 0x4dbf)"

text \<open>
  \<^verbatim>\<open>line.match(kanjiRegex)\<close> with the \<^verbatim>\<open>g\<close> flag: all matches from left to right, or
  \<^verbatim>\<open>null\<close> when there is none.
\<close>

definition string_match :: "code_unit list \<Rightarrow> kanji list option" where
  "string_match line =
     (if filter kanjiRegex line = [] then None else Some (filter kanjiRegex line))"

text \<open>
  \<^verbatim>\<open>[...new Set(matches)]\<close>: a \<^verbatim>\<open>Set\<close> iterates in insertion order, and adding a value it
  holds changes nothing. The set is the list of its values in that order.
\<close>

definition set_add :: "'a list \<Rightarrow> 'a \<Rightarrow> 'a list" where
  "set_add s x = (if x \<in> set s then s else s @ [x])"

definition new_Set :: "'a list \<Rightarrow> 'a list" where
  "new_Set xs = foldl set_add [] xs"

text \<open>The function mapped over the lines in \<^verbatim>\<open>extractKanjiByLines\<close>.\<close>

definition extract_line :: "bool \<Rightarrow> code_unit list \<Rightarrow> kanji list" where
  "extract_line removeDuplicates line =
     (case string_match line of
        None \<Rightarrow> []
      | Some matches \<Rightarrow> if removeDuplicates then new_Set matches else matches)"

definition extractKanjiByLines :: "bool \<Rightarrow> code_unit list \<Rightarrow> kanji list list" where
  "extractKanjiByLines removeDuplicates text =
     filter (\<lambda>line. length line > 0)
       (map (extract_line removeDuplicates) (string_split 0x0A text))"

text \<open>
  The spec's wording of the removal of duplicates: the first occurrence of a character
  stays where it is, and its repetitions are removed from what follows.
\<close>

fun first_occurrences :: "'a list \<Rightarrow> 'a list" where
  "first_occurrences [] = []"
| "first_occurrences (x # xs) = x # first_occurrences (filter (\<lambda>y. y \<noteq> x) xs)"

section \<open>The Orderer\<close>

text \<open>
  The Illustration Provider is outside the program. \<^verbatim>\<open>fetchKanjiSVG\<close> is a parameter
  \<open>fetch\<close>: the text of the illustration of a character, or \<^verbatim>\<open>null\<close> (\<open>None\<close>) when the
  response is not ok or the request throws. The number of elements that
  \<^verbatim>\<open>querySelectorAll('path[id^="kvg:"]')\<close> finds in the parsed text is a parameter \<open>paths\<close>.
  One run of \<^verbatim>\<open>sortKanji\<close> sees one outcome for each character.
\<close>

type_synonym provider = "kanji \<Rightarrow> string option"

text \<open>
  \<^verbatim>\<open>getStrokeCountFromKanjiVG\<close>: the number of stroke paths when the text is there (an empty
  string is falsy), and 10 otherwise.
\<close>

definition getStrokeCountFromKanjiVG :: "provider \<Rightarrow> (string \<Rightarrow> nat) \<Rightarrow> kanji \<Rightarrow> int" where
  "getStrokeCountFromKanjiVG fetch paths kanji =
     (case fetch kanji of
        Some svg \<Rightarrow> if svg \<noteq> [] then int (paths svg) else 10
      | None \<Rightarrow> 10)"

text \<open>
  \<^verbatim>\<open>Array.prototype.sort(compare)\<close> is stable, and with a comparator that is a difference
  of numbers its result is determined: the insertion sort that puts an element before the
  first element it is not greater than, taking the elements from the right.
\<close>

fun insert_cmp :: "('a \<Rightarrow> 'a \<Rightarrow> int) \<Rightarrow> 'a \<Rightarrow> 'a list \<Rightarrow> 'a list" where
  "insert_cmp compare x [] = [x]"
| "insert_cmp compare x (y # ys) =
     (if compare x y \<le> 0 then x # y # ys else y # insert_cmp compare x ys)"

definition array_sort :: "('a \<Rightarrow> 'a \<Rightarrow> int) \<Rightarrow> 'a list \<Rightarrow> 'a list" where
  "array_sort compare xs = foldr (insert_cmp compare) xs []"

text \<open>\<^verbatim>\<open>kanji.charCodeAt(0)\<close>\<close>

definition charCodeAt0 :: "kanji \<Rightarrow> int" where
  "charCodeAt0 kanji = uint kanji"

text \<open>
  The stroke count of a character in \<^verbatim>\<open>sortKanji\<close>: \<^verbatim>\<open>strokeCache.get(kanji)\<close>, and the
  provider's count when that is \<^verbatim>\<open>undefined\<close>.
\<close>

definition strokeCount :: "(kanji \<rightharpoonup> int) \<Rightarrow> provider \<Rightarrow> (string \<Rightarrow> nat) \<Rightarrow> kanji \<Rightarrow> int" where
  "strokeCount strokeCache fetch paths kanji =
     (case strokeCache kanji of
        Some n \<Rightarrow> n
      | None \<Rightarrow> getStrokeCountFromKanjiVG fetch paths kanji)"

text \<open>
  The function mapped over the lines in \<^verbatim>\<open>sortKanji\<close>. The order is a string, read from
  the storage or from the select element, and tested with \<^verbatim>\<open>startsWith\<close>.
\<close>

definition sort_line ::
  "string \<Rightarrow> (kanji \<rightharpoonup> int) \<Rightarrow> provider \<Rightarrow> (string \<Rightarrow> nat) \<Rightarrow> kanji list \<Rightarrow> kanji list" where
  "sort_line sortOrder strokeCache fetch paths lineKanji =
     (if prefix ''stroke-'' sortOrder then
        map fst
          (array_sort
             (\<lambda>a b. if sortOrder = ''stroke-asc'' then snd a - snd b else snd b - snd a)
             (map (\<lambda>kanji. (kanji, strokeCount strokeCache fetch paths kanji)) lineKanji))
      else if prefix ''unicode-'' sortOrder then
        map fst
          (array_sort
             (\<lambda>a b. if sortOrder = ''unicode-asc'' then snd a - snd b else snd b - snd a)
             (map (\<lambda>kanji. (kanji, charCodeAt0 kanji)) lineKanji))
      else lineKanji)"

text \<open>
  The cache after a run: \<^verbatim>\<open>setStrokeCache(prev => new Map(prev.set(kanji, strokeCount)))\<close>
  for every character of a stroke order that the cache of the run did not hold.
\<close>

definition cache_after ::
  "string \<Rightarrow> (kanji \<rightharpoonup> int) \<Rightarrow> provider \<Rightarrow> (string \<Rightarrow> nat) \<Rightarrow> kanji list list
    \<Rightarrow> (kanji \<rightharpoonup> int)" where
  "cache_after sortOrder strokeCache fetch paths kanjiList =
     (if prefix ''stroke-'' sortOrder then
        foldl (\<lambda>prev kanji.
                 if strokeCache kanji = None
                 then prev(kanji \<mapsto> getStrokeCountFromKanjiVG fetch paths kanji)
                 else prev)
          strokeCache (concat kanjiList)
      else strokeCache)"

definition sortKanji ::
  "string \<Rightarrow> (kanji \<rightharpoonup> int) \<Rightarrow> provider \<Rightarrow> (string \<Rightarrow> nat) \<Rightarrow> kanji list list
    \<Rightarrow> kanji list list \<times> (kanji \<rightharpoonup> int)" where
  "sortKanji sortOrder strokeCache fetch paths kanjiList =
     (if sortOrder = ''none'' then (kanjiList, strokeCache)
      else (map (sort_line sortOrder strokeCache fetch paths) kanjiList,
            cache_after sortOrder strokeCache fetch paths kanjiList))"

section \<open>The Page Layout Engine\<close>

text \<open>
  The elements that \<^verbatim>\<open>createDrillLayout\<close> builds. A \<^verbatim>\<open>KanjiDisplay\<close> has its three
  properties and the index of its key (the key is the character, this index and the word
  \<^verbatim>\<open>numbered\<close> or \<^verbatim>\<open>plain\<close>). A pair of rows has the line index and the counter \<^verbatim>\<open>i\<close> of
  its key, the row with the stroke numbers and the row without. A line break has the line
  index of its key.
\<close>

datatype kanji_display =
  KanjiDisplay (key_index: nat) (kanji: kanji) (sizeMm: double) (showNumbers: bool)

datatype element =
  KanjiPair (pair_line: nat) (pair_i: number)
    (numberedRow: "kanji_display list") (plainRow: "kanji_display list")
| LineBreak nat

text \<open>
  The relative index of \<^verbatim>\<open>Array.prototype.slice\<close> in an array of length \<open>len\<close>:
  \<^verbatim>\<open>NaN\<close> counts as 0, a negative index counts from the end, and the result is clamped to
  the array.
\<close>

fun relative_index :: "number \<Rightarrow> nat \<Rightarrow> nat" where
  "relative_index NaN len = 0"
| "relative_index NegInf len = 0"
| "relative_index PosInf len = len"
| "relative_index (Fin a) len =
     (if a < 0 then nat (max (int len + a) 0) else min (nat a) len)"

definition array_slice :: "'a list \<Rightarrow> number \<Rightarrow> number \<Rightarrow> 'a list" where
  "array_slice xs start stop =
     take (relative_index stop (length xs) - relative_index start (length xs))
       (drop (relative_index start (length xs)) xs)"

text \<open>\<^verbatim>\<open>kanjiInRow.map((kanji, index) => <KanjiDisplay ... />)\<close>\<close>

definition display_row :: "double \<Rightarrow> bool \<Rightarrow> nat \<Rightarrow> kanji list \<Rightarrow> kanji_display list" where
  "display_row kanjiSizeMm numbers globalIndex kanjiInRow =
     map (\<lambda>(index, kanji). KanjiDisplay (globalIndex + index) kanji kanjiSizeMm numbers)
       (enumerate 0 kanjiInRow)"

definition row_pair :: "double \<Rightarrow> nat \<Rightarrow> number \<Rightarrow> nat \<Rightarrow> kanji list \<Rightarrow> element" where
  "row_pair kanjiSizeMm lineIndex i globalIndex kanjiInRow =
     KanjiPair lineIndex i
       (display_row kanjiSizeMm True globalIndex kanjiInRow)
       (display_row kanjiSizeMm False globalIndex kanjiInRow)"

text \<open>
  The loop over one line:
  \<^verbatim>\<open>for (let i = 0; i < lineKanji.length; i += maxKanjiPerRow) { ... }\<close>
  with its state \<^verbatim>\<open>i\<close>, \<^verbatim>\<open>globalIndex\<close> and \<^verbatim>\<open>rows\<close>. Nothing in the loop makes it end
  but its condition, so it is a partial function: \<open>None\<close> is a loop that runs forever.
\<close>

partial_function (option) row_loop ::
  "number \<Rightarrow> double \<Rightarrow> nat \<Rightarrow> kanji list \<Rightarrow> number \<Rightarrow> nat \<Rightarrow> element list
    \<Rightarrow> (nat \<times> element list) option" where
  "row_loop maxPerRow kanjiSizeMm lineIndex lineKanji i globalIndex rows =
     (if num_less i (Fin (int (length lineKanji))) then
        row_loop maxPerRow kanjiSizeMm lineIndex lineKanji
          (num_add i maxPerRow)
          (globalIndex + length (array_slice lineKanji i (num_add i maxPerRow)))
          (rows @ [row_pair kanjiSizeMm lineIndex i globalIndex
                     (array_slice lineKanji i (num_add i maxPerRow))])
      else Some (globalIndex, rows))"

declare row_loop.simps [code]

text \<open>
  \<^verbatim>\<open>kanjiLines.forEach((lineKanji, lineIndex) => { ... })\<close>: the loop over the line, then
  a line break unless the line is the last one. \<open>n\<close> is \<^verbatim>\<open>kanjiLines.length\<close>.
\<close>

fun forEach_line ::
  "number \<Rightarrow> double \<Rightarrow> nat \<Rightarrow> nat \<Rightarrow> kanji list list \<Rightarrow> nat \<Rightarrow> element list
    \<Rightarrow> element list option" where
  "forEach_line maxPerRow kanjiSizeMm n lineIndex [] globalIndex rows = Some rows"
| "forEach_line maxPerRow kanjiSizeMm n lineIndex (lineKanji # rest) globalIndex rows =
     (case row_loop maxPerRow kanjiSizeMm lineIndex lineKanji (Fin 0) globalIndex rows of
        None \<Rightarrow> None
      | Some (globalIndex', rows') \<Rightarrow>
          forEach_line maxPerRow kanjiSizeMm n (Suc lineIndex) rest globalIndex'
            (if int lineIndex < int n - 1 then rows' @ [LineBreak lineIndex] else rows'))"

definition createDrillLayout :: "number \<Rightarrow> double \<Rightarrow> kanji list list \<Rightarrow> element list option" where
  "createDrillLayout maxPerRow kanjiSizeMm kanjiLines =
     forEach_line maxPerRow kanjiSizeMm (length kanjiLines) 0 kanjiLines 0 []"

section \<open>The layout as the specification words it\<close>

text \<open>
  Section 4.3 of the specification: split a line into consecutive chunks of at most
  \<open>m\<close> characters, preserving order. The number of characters in a row is a number of the
  program; an infinite one leaves a line in one chunk.
\<close>

fun chunks :: "nat \<Rightarrow> 'a list \<Rightarrow> 'a list list" where
  "chunks m xs = (if m = 0 \<or> xs = [] then [] else take m xs # chunks m (drop m xs))"

declare chunks.simps [simp del]

fun chunks_of :: "number \<Rightarrow> 'a list \<Rightarrow> 'a list list" where
  "chunks_of (Fin m) xs = chunks (nat m) xs"
| "chunks_of PosInf xs = (if xs = [] then [] else [xs])"
| "chunks_of NaN xs = []"
| "chunks_of NegInf xs = []"

text \<open>
  For each chunk, two rows with the same characters: one with the stroke numbers and one
  without. The keys are those of the program: the counter of the loop and the running
  index of the characters.
\<close>

fun pair_rows :: "double \<Rightarrow> nat \<Rightarrow> number \<Rightarrow> number \<Rightarrow> nat \<Rightarrow> kanji list list \<Rightarrow> element list" where
  "pair_rows cellSize lineIndex i maxPerRow globalIndex [] = []"
| "pair_rows cellSize lineIndex i maxPerRow globalIndex (chunk # rest) =
     row_pair cellSize lineIndex i globalIndex chunk
       # pair_rows cellSize lineIndex (num_add i maxPerRow) maxPerRow
           (globalIndex + length chunk) rest"

text \<open>After all chunks of a line, except the last line, a line-break marker.\<close>

fun spec_lines :: "number \<Rightarrow> double \<Rightarrow> nat \<Rightarrow> nat \<Rightarrow> nat \<Rightarrow> kanji list list \<Rightarrow> element list" where
  "spec_lines maxPerRow cellSize n lineIndex globalIndex [] = []"
| "spec_lines maxPerRow cellSize n lineIndex globalIndex (line # rest) =
     pair_rows cellSize lineIndex (Fin 0) maxPerRow globalIndex (chunks_of maxPerRow line)
       @ (if Suc lineIndex < n then [LineBreak lineIndex] else [])
       @ spec_lines maxPerRow cellSize n (Suc lineIndex) (globalIndex + length line) rest"

definition spec_layout :: "number \<Rightarrow> double \<Rightarrow> kanji list list \<Rightarrow> element list" where
  "spec_layout maxPerRow cellSize document =
     spec_lines maxPerRow cellSize (length document) 0 0 document"

text \<open>Reading an output: the characters of a row pair (a line break has none).\<close>

fun row_chars :: "element \<Rightarrow> kanji list" where
  "row_chars (KanjiPair _ _ numbered _) = map kanji numbered"
| "row_chars (LineBreak _) = []"

fun is_break :: "element \<Rightarrow> bool" where
  "is_break (LineBreak _) = True"
| "is_break (KanjiPair _ _ _ _) = False"

text \<open>
  A pair is well formed when its first row shows the stroke numbers, its second row hides
  them, and both rows hold the same characters in the same order.
\<close>

fun annotated_then_plain :: "element \<Rightarrow> bool" where
  "annotated_then_plain (KanjiPair _ _ numbered plain) =
     (list_all showNumbers numbered \<and> list_all (\<lambda>d. \<not> showNumbers d) plain
      \<and> map kanji numbered = map kanji plain)"
| "annotated_then_plain (LineBreak _) = True"

text \<open>The output cut at its line breaks: the blocks of rows between them.\<close>

fun line_blocks :: "element list \<Rightarrow> element list list" where
  "line_blocks [] = [[]]"
| "line_blocks (LineBreak _ # es) = [] # line_blocks es"
| "line_blocks (e # es) =
     (case line_blocks es of
        [] \<Rightarrow> [[e]]
      | block # blocks \<Rightarrow> (e # block) # blocks)"

text \<open>
  The numbers of characters in a row, and the values of the counter, with which the loop
  over a non-empty line cannot end: the counter starts at 0 and never becomes positive.
\<close>

fun stuck :: "number \<Rightarrow> bool" where
  "stuck (Fin k) = (k \<le> 0)"
| "stuck NegInf = True"
| "stuck _ = False"

section \<open>The component\<close>

text \<open>
  \<^verbatim>\<open>parseInt(string, 10)\<close>: the white space at the start is skipped, a sign is read, and
  the longest run of decimal digits that follows is the integer; \<^verbatim>\<open>NaN\<close> when there is no
  digit. The result is the double of the integer, and the negative zero for a zero with a
  minus sign. (For more than 20 digits the language lets an implementation replace the
  later digits by zeros; the exact integer is taken here.)
\<close>

definition StrWhiteSpaceChar :: "code_unit \<Rightarrow> bool" where
  "StrWhiteSpaceChar c \<longleftrightarrow>
     c \<in> {0x09, 0x0A, 0x0B, 0x0C, 0x0D, 0x20, 0xA0, 0x1680, 0x2028, 0x2029, 0x202F, 0x205F,
          0x3000, 0xFEFF}
     \<or> (0x2000 \<le> c \<and> c \<le> 0x200A)"

definition decimal_digit :: "code_unit \<Rightarrow> bool" where
  "decimal_digit c \<longleftrightarrow> 0x30 \<le> c \<and> c \<le> 0x39"

definition digits_value :: "code_unit list \<Rightarrow> nat" where
  "digits_value ds = foldl (\<lambda>n d. 10 * n + (unat d - 48)) 0 ds"

definition strip_sign :: "code_unit list \<Rightarrow> bool \<times> code_unit list" where
  "strip_sign s =
     (case s of
        [] \<Rightarrow> (False, [])
      | c # cs \<Rightarrow> if c = 0x2D then (True, cs) else if c = 0x2B then (False, cs) else (False, s))"

definition parseInt :: "code_unit list \<Rightarrow> double" where
  "parseInt string =
     (case strip_sign (dropWhile StrWhiteSpaceChar string) of
        (negative, s) \<Rightarrow>
          if takeWhile decimal_digit s = [] then DNaN
          else if digits_value (takeWhile decimal_digit s) = 0
            then (if negative then DNegZero else DFin 0)
          else round_double
            (if negative then - of_nat (digits_value (takeWhile decimal_digit s))
             else of_nat (digits_value (takeWhile decimal_digit s))))"

text \<open>
  The state of \<^verbatim>\<open>App\<close>. The initial cell size is
  \<^verbatim>\<open>saved ? parseInt(saved, 10) : 20\<close>, where \<open>saved\<close> is the string of the storage, or
  \<^verbatim>\<open>null\<close> (\<open>None\<close>) when nothing is stored; \<^verbatim>\<open>null\<close> and the empty string are falsy.
\<close>

record app =
  inputText :: "code_unit list"
  kanjiSizeMm :: double
  removeDuplicates :: bool
  sortOrder :: string
  strokeCache :: "kanji \<rightharpoonup> int"
  sortedKanjiLines :: "kanji list list"

definition initial_kanjiSizeMm :: "code_unit list option \<Rightarrow> double" where
  "initial_kanjiSizeMm saved =
     (case saved of
        None \<Rightarrow> DFin 20
      | Some string \<Rightarrow> if string = [] then DFin 20 else parseInt string)"

text \<open>
  \<^verbatim>\<open>onChange={(e) => setKanjiSizeMm(Number(e.target.value))}\<close> of the size input;
  \<open>v\<close> is \<^verbatim>\<open>Number(e.target.value)\<close>. The attributes \<^verbatim>\<open>min="10"\<close> and \<^verbatim>\<open>max="100"\<close> of
  the input do not change the value that a user types.
\<close>

definition size_onChange :: "double \<Rightarrow> app \<Rightarrow> app" where
  "size_onChange v st = st\<lparr>kanjiSizeMm := v\<rparr>"

text \<open>
  \<^verbatim>\<open>processKanji\<close>: the effect that extracts and sorts, and stores the sorted lines (and,
  through \<^verbatim>\<open>sortKanji\<close>, the stroke counts it fetched).
\<close>

definition processKanji :: "provider \<Rightarrow> (string \<Rightarrow> nat) \<Rightarrow> app \<Rightarrow> app" where
  "processKanji fetch paths st =
     (case sortKanji (sortOrder st) (strokeCache st) fetch paths
             (extractKanjiByLines (removeDuplicates st) (inputText st)) of
        (sortedLines, cache) \<Rightarrow> st\<lparr>sortedKanjiLines := sortedLines, strokeCache := cache\<rparr>)"

text \<open>
  The rows that \<^verbatim>\<open>App\<close> renders:
  \<^verbatim>\<open>{kanjiLines.length > 0 && (<div ...>{createDrillLayout()}</div>)}\<close>
\<close>

definition render :: "app \<Rightarrow> element list option" where
  "render st =
     (if length (sortedKanjiLines st) > 0
      then createDrillLayout (maxKanjiPerRow (kanjiSizeMm st)) (kanjiSizeMm st)
             (sortedKanjiLines st)
      else Some [])"

section \<open>Doubles and the number of cells in a row: properties\<close>

lemma round_half_even_le: "y \<le> of_int k \<Longrightarrow> round_half_even y \<le> k"
proof -
  assume a: "y \<le> of_int k"
  then have f: "\<lfloor>y\<rfloor> \<le> k" by (simp add: floor_le_iff)
  show ?thesis
  proof (cases "\<lfloor>y\<rfloor> = k")
    case True
    with a have "y - of_int \<lfloor>y\<rfloor> \<le> 0" by simp
    then show ?thesis using True by (simp add: round_half_even_def)
  next
    case False
    with f have "\<lfloor>y\<rfloor> + 1 \<le> k" by simp
    then show ?thesis by (simp add: round_half_even_def)
  qed
qed

lemma round_half_even_ge: "of_int k \<le> y \<Longrightarrow> k \<le> round_half_even y"
proof -
  assume "of_int k \<le> y"
  then have "k \<le> \<lfloor>y\<rfloor>" by (simp add: le_floor_iff)
  then show ?thesis by (simp add: round_half_even_def)
qed

lemma ilog2_bounds:
  assumes "0 < a"
  shows "2 powi (ilog2 a) \<le> a \<and> a < 2 powi (ilog2 a + 1)"
proof (cases "1 \<le> a")
  case True
  let ?n = "\<lfloor>a\<rfloor>"
  let ?b = "bitlen ?n"
  from True have pos: "0 < ?n" by simp
  from bitlen_bounds [OF pos] have lo: "2 ^ nat (?b - 1) \<le> ?n" and hi: "?n < 2 ^ nat ?b"
    by simp_all
  from pos have b1: "1 \<le> ?b" using bitlen_eq_zero_iff [of ?n] bitlen_nonneg [of ?n] by simp
  have "(of_int (2 ^ nat (?b - 1)) :: rat) \<le> of_int ?n" using lo by (simp only: of_int_le_iff)
  also have "\<dots> \<le> a" by simp
  finally have l: "(2::rat) ^ nat (?b - 1) \<le> a" by simp
  from hi have "?n + 1 \<le> 2 ^ nat ?b" by simp
  then have "(of_int (?n + 1) :: rat) \<le> of_int (2 ^ nat ?b)" by (simp only: of_int_le_iff)
  moreover have "a < of_int (?n + 1)" by simp linarith
  ultimately have h: "a < (2::rat) ^ nat ?b" by simp
  have e1: "(2::rat) powi (?b - 1) = 2 ^ nat (?b - 1)" using b1 by (simp add: power_int_def)
  have e2: "(2::rat) powi ?b = 2 ^ nat ?b" using b1 by (simp add: power_int_def)
  from True l h e1 e2 show ?thesis by (simp add: ilog2_def)
next
  case False
  let ?y = "1 / a"
  let ?n = "\<lceil>?y\<rceil> - 1"
  let ?b = "bitlen ?n"
  from False assms have y1: "1 < ?y" by simp
  then have "1 < \<lceil>?y\<rceil>" by (simp add: less_ceiling_iff)
  then have pos: "0 < ?n" by simp
  from bitlen_bounds [OF pos] have lo: "2 ^ nat (?b - 1) \<le> ?n" and hi: "?n < 2 ^ nat ?b"
    by simp_all
  from pos have b1: "1 \<le> ?b" using bitlen_eq_zero_iff [of ?n] bitlen_nonneg [of ?n] by simp
  have ny: "of_int ?n < ?y" by (simp add: less_ceiling_iff [symmetric]) linarith
  have yn: "?y \<le> of_int (?n + 1)" by simp
  from hi have "?n + 1 \<le> 2 ^ nat ?b" by simp
  then have "(of_int (?n + 1) :: rat) \<le> of_int (2 ^ nat ?b)" by (simp only: of_int_le_iff)
  with yn have "?y \<le> of_int (2 ^ nat ?b)" by (rule order_trans)
  then have "?y \<le> 2 ^ nat ?b" by simp
  with assms have l: "1 / 2 ^ nat ?b \<le> a"
    by (simp add: field_simps)
  have "(of_int (2 ^ nat (?b - 1)) :: rat) \<le> of_int ?n" using lo by (simp only: of_int_le_iff)
  with ny have "2 ^ nat (?b - 1) < ?y" by simp
  with assms have h: "a < 1 / 2 ^ nat (?b - 1)"
    by (simp add: field_simps)
  have e1: "(2::rat) powi (- ?b) = 1 / 2 ^ nat ?b"
    using b1 by (simp add: power_int_def field_simps)
  have e2: "(2::rat) powi (- ?b + 1) = 1 / 2 ^ nat (?b - 1)"
  proof -
    have "- ?b + 1 = - (?b - 1)" by simp
    moreover have "(2::rat) powi (- (?b - 1)) = 1 / 2 ^ nat (?b - 1)"
      using b1 by (simp add: power_int_def field_simps)
    ultimately show ?thesis by (simp only:)
  qed
  from False l h e1 e2 show ?thesis by (simp add: ilog2_def)
qed

lemma ilog2_le:
  assumes "0 < a" and "a < 2 ^ Suc t"
  shows "ilog2 a \<le> int t"
proof (cases "1 \<le> a")
  case False
  have "0 \<le> bitlen (\<lceil>1 / a\<rceil> - 1)" by (rule bitlen_nonneg)
  with False show ?thesis by (simp add: ilog2_def)
next
  case True
  then have pos: "0 < \<lfloor>a\<rfloor>" by simp
  from assms(2) have "\<lfloor>a\<rfloor> < 2 ^ Suc t"
    by (metis floor_less_iff of_int_numeral of_int_power)
  moreover from bitlen_bounds [OF pos] have "2 ^ nat (bitlen \<lfloor>a\<rfloor> - 1) \<le> \<lfloor>a\<rfloor>" by simp
  ultimately have "(2::int) ^ nat (bitlen \<lfloor>a\<rfloor> - 1) < 2 ^ Suc t" by simp
  then have "nat (bitlen \<lfloor>a\<rfloor> - 1) < Suc t"
    by (simp only: power_strict_increasing_iff [of "2::int"] one_less_numeral_iff
        semiring_norm)
  then have "bitlen \<lfloor>a\<rfloor> - 1 \<le> int t" by simp
  with True show ?thesis by (simp add: ilog2_def)
qed

lemma ilog2_less_one:
  assumes "0 < a" and "a < 1"
  shows "ilog2 a \<le> - 1"
proof -
  from assms have "1 < 1 / a" by simp
  then have "1 < \<lceil>1 / a\<rceil>" by (simp add: less_ceiling_iff)
  then have "0 < \<lceil>1 / a\<rceil> - 1" by simp
  then have "bitlen (\<lceil>1 / a\<rceil> - 1) \<noteq> 0" by (simp add: bitlen_eq_zero_iff)
  with bitlen_nonneg [of "\<lceil>1 / a\<rceil> - 1"] have "1 \<le> bitlen (\<lceil>1 / a\<rceil> - 1)" by simp
  with assms show ?thesis by (simp add: ilog2_def)
qed

lemma on_grid:
  assumes "e \<le> s"
  shows "of_int m * 2 powi s / 2 powi e = (of_int (m * 2 ^ nat (s - e)) :: rat)"
proof -
  have "(2::rat) powi s / 2 powi e = 2 powi (s - e)"
    by (simp add: power_int_diff)
  also have "\<dots> = 2 ^ nat (s - e)"
    using assms by (simp add: power_int_def)
  finally have "(2::rat) powi s / 2 powi e = 2 ^ nat (s - e)" .
  then have "of_int m * ((2::rat) powi s / 2 powi e) = of_int m * 2 ^ nat (s - e)"
    by (simp only:)
  then show ?thesis by simp
qed

lemma round_magnitude_le:
  assumes "a \<le> of_int m * 2 powi s" and "max (ilog2 a) (- 1022) - 52 \<le> s"
  shows "round_magnitude a \<le> of_int m * 2 powi s"
proof -
  let ?e = "max (ilog2 a) (- 1022) - 52"
  have u: "(0::rat) < 2 powi ?e" by simp
  from assms(1) u have "a / 2 powi ?e \<le> of_int m * 2 powi s / 2 powi ?e"
    by (simp add: divide_right_mono)
  then have "a / 2 powi ?e \<le> of_int (m * 2 ^ nat (s - ?e))"
    by (simp only: on_grid [OF assms(2)])
  then have "round_half_even (a / 2 powi ?e) \<le> m * 2 ^ nat (s - ?e)"
    by (rule round_half_even_le)
  then have "(of_int (round_half_even (a / 2 powi ?e)) :: rat) \<le> of_int (m * 2 ^ nat (s - ?e))"
    by (simp only: of_int_le_iff)
  then have "of_int (round_half_even (a / 2 powi ?e)) * 2 powi ?e
      \<le> (of_int (m * 2 ^ nat (s - ?e)) :: rat) * 2 powi ?e"
    using u by (simp only: mult_le_cancel_right_pos)
  also have "\<dots> = of_int m * 2 powi s"
    using on_grid [OF assms(2), of m, symmetric] u by simp
  finally show ?thesis by (simp only: round_magnitude_def)
qed

lemma round_magnitude_ge:
  assumes "of_int m * 2 powi s \<le> a" and "max (ilog2 a) (- 1022) - 52 \<le> s"
  shows "of_int m * 2 powi s \<le> round_magnitude a"
proof -
  let ?e = "max (ilog2 a) (- 1022) - 52"
  have u: "(0::rat) < 2 powi ?e" by simp
  from assms(1) u have "of_int m * 2 powi s / 2 powi ?e \<le> a / 2 powi ?e"
    by (simp add: divide_right_mono)
  then have "of_int (m * 2 ^ nat (s - ?e)) \<le> a / 2 powi ?e"
    by (simp only: on_grid [OF assms(2)])
  then have "m * 2 ^ nat (s - ?e) \<le> round_half_even (a / 2 powi ?e)"
    by (rule round_half_even_ge)
  then have "(of_int (m * 2 ^ nat (s - ?e)) :: rat) \<le> of_int (round_half_even (a / 2 powi ?e))"
    by (simp only: of_int_le_iff)
  then have "(of_int (m * 2 ^ nat (s - ?e)) :: rat) * 2 powi ?e
      \<le> of_int (round_half_even (a / 2 powi ?e)) * 2 powi ?e"
    using u by (simp only: mult_le_cancel_right_pos)
  moreover have "(of_int (m * 2 ^ nat (s - ?e)) :: rat) * 2 powi ?e = of_int m * 2 powi s"
    using on_grid [OF assms(2), of m, symmetric] u by simp
  ultimately show ?thesis by (simp only: round_magnitude_def)
qed

lemma exponent_le:
  assumes "0 < a" and "a < 2 ^ Suc t"
  shows "max (ilog2 a) (- 1022) - 52 \<le> int t - 52"
  using ilog2_le [OF assms] by simp

lemma round_double_positive:
  assumes "0 < x" and "round_magnitude x < 2 ^ 1024"
  shows "Math_floor (round_double x) = Fin \<lfloor>round_magnitude x\<rfloor>"
  using assms by (simp add: round_double_def)

lemma round_double_nat:
  assumes "0 < k" and "k < 2 ^ 53"
  shows "round_double (of_nat k) = DFin (of_nat k)"
proof -
  let ?a = "of_nat k :: rat"
  from assms(1) have a: "0 < ?a" by simp
  from assms(2) have "?a < 2 ^ 53" by (metis of_nat_less_iff of_nat_numeral of_nat_power)
  from exponent_le [OF a, of 52] this have e: "max (ilog2 ?a) (- 1022) - 52 \<le> 0" by simp
  have "of_int (int k) * 2 powi 0 \<le> ?a" by simp
  from round_magnitude_ge [OF this e] have lo: "?a \<le> round_magnitude ?a" by simp
  have "?a \<le> of_int (int k) * 2 powi 0" by simp
  from round_magnitude_le [OF this e] have hi: "round_magnitude ?a \<le> ?a" by simp
  from lo hi have eq: "round_magnitude ?a = ?a" by simp
  have "?a < 2 ^ 1024"
  proof -
    have "(2::rat) ^ 53 < 2 ^ 1024" by simp
    with \<open>?a < 2 ^ 53\<close> show ?thesis by (rule less_trans)
  qed
  then have "\<not> 2 ^ 1024 \<le> ?a" by (simp only: not_le)
  with a show ?thesis unfolding round_double_def abs_of_pos [OF a] eq by simp
qed

lemma maxKanjiPerRow_between:
  assumes "0 < c" and "190 / c < 2 ^ 53"
  shows "\<exists>m. maxKanjiPerRow (DFin c) = Fin m \<and> \<lfloor>190 / c\<rfloor> \<le> m \<and> m \<le> \<lfloor>190 / c\<rfloor> + 1"
proof -
  let ?x = "190 / c"
  let ?n = "\<lfloor>?x\<rfloor>"
  from assms(1) have x: "0 < ?x" by simp
  have e: "max (ilog2 ?x) (- 1022) - 52 \<le> 0"
    using exponent_le [OF x, of 52] assms(2) by simp
  have "of_int ?n * 2 powi 0 \<le> ?x" by simp
  from round_magnitude_ge [OF this e] have lo: "of_int ?n \<le> round_magnitude ?x" by simp
  have "?x \<le> of_int (?n + 1) * 2 powi 0" by simp linarith
  from round_magnitude_le [OF this e] have hi: "round_magnitude ?x \<le> of_int (?n + 1)" by simp
  have "(of_int (?n + 1) :: rat) < 2 ^ 1024"
  proof -
    have "of_int ?n \<le> ?x" by simp
    with assms(2) have "(of_int ?n :: rat) < 2 ^ 53" by simp
    then have "?n < 2 ^ 53" by (metis of_int_less_iff of_int_numeral of_int_power)
    then have "?n + 1 \<le> 2 ^ 53" by simp
    then have "(of_int (?n + 1) :: rat) \<le> of_int (2 ^ 53)" by (simp only: of_int_le_iff)
    also have "\<dots> < 2 ^ 1024" by simp
    finally show ?thesis .
  qed
  with hi have fin: "round_magnitude ?x < 2 ^ 1024" by (rule le_less_trans)
  from assms(1) have "maxKanjiPerRow (DFin c) = Math_floor (round_double ?x)"
    by (simp add: maxKanjiPerRow_def)
  also have "\<dots> = Fin \<lfloor>round_magnitude ?x\<rfloor>"
    using x fin by (rule round_double_positive)
  finally have "maxKanjiPerRow (DFin c) = Fin \<lfloor>round_magnitude ?x\<rfloor>" .
  moreover from lo have "?n \<le> \<lfloor>round_magnitude ?x\<rfloor>" by (simp add: le_floor_iff)
  moreover from hi have "\<lfloor>round_magnitude ?x\<rfloor> \<le> ?n + 1"
    by (metis floor_mono floor_of_int)
  ultimately show ?thesis by blast
qed


lemma maxKanjiPerRow_int:
  assumes "0 < c"
  shows "maxKanjiPerRow (DFin (of_int c)) = Fin (190 div c)"
proof -
  let ?x = "190 / (of_int c :: rat)"
  let ?n = "190 div c"
  from assms have c: "(0::rat) < of_int c" by simp
  then have x: "0 < ?x" by simp
  have fl: "\<lfloor>?x\<rfloor> = ?n"
    using floor_divide_of_int_eq [of 190 c, where ?'a = rat] by simp
  from assms have "(1::rat) \<le> of_int c" by (simp add: int_one_le_iff_zero_less)
  then have x190: "?x \<le> 190" using c by (simp add: field_simps)
  then have "?x < 2 ^ 53" by simp
  from maxKanjiPerRow_between [OF c this] obtain m
    where m: "maxKanjiPerRow (DFin (of_int c)) = Fin m" and lo: "?n \<le> m"
    unfolding fl by blast
  have e: "max (ilog2 ?x) (- 1022) - 52 \<le> - 45"
    using exponent_le [OF x, of 7] x190 by simp
  have gap: "?x \<le> of_int (?n + 1) - 1 / 2 ^ 45"
  proof -
    have "?x < of_int (\<lfloor>?x\<rfloor> + 1)" by simp linarith
    then have "(190::rat) < of_int ((?n + 1) * c)" using c unfolding fl by (simp add: field_simps)
    then have "190 < (?n + 1) * c" by (metis of_int_less_iff of_int_numeral)
    then have "191 \<le> (?n + 1) * c" by simp
    then have "(of_int 191 :: rat) \<le> of_int ((?n + 1) * c)" by (simp only: of_int_le_iff)
    then have a: "?x + 1 / of_int c \<le> of_int (?n + 1)" using c by (simp add: field_simps)
    show ?thesis
    proof (cases "c \<le> 190")
      case True
      then have "(of_int c :: rat) \<le> 190" by (metis of_int_le_iff of_int_numeral)
      then have "(1::rat) / 190 \<le> 1 / of_int c" using c by (simp add: field_simps)
      moreover have "(1::rat) / 2 ^ 45 \<le> 1 / 190" by simp
      ultimately show ?thesis using a by linarith
    next
      case False
      then have "191 \<le> c" by simp
      then have n0: "?n = 0" by (simp add: div_pos_pos_trivial)
      from \<open>191 \<le> c\<close> have "(191::rat) \<le> of_int c" by (metis of_int_le_iff of_int_numeral)
      then have "?x \<le> 190 / 191" using c by (simp add: field_simps)
      moreover have "(190::rat) / 191 \<le> 1 - 1 / 2 ^ 45" by simp
      ultimately show ?thesis unfolding n0 by simp
    qed
  qed
  have g: "of_int (?n + 1) - 1 / 2 ^ 45 = (of_int ((?n + 1) * 2 ^ 45 - 1) :: rat) * 2 powi (- 45)"
    by (simp add: power_int_minus field_simps)
  from gap have "?x \<le> of_int ((?n + 1) * 2 ^ 45 - 1) * 2 powi (- 45)" by (simp only: g)
  from round_magnitude_le [OF this e]
  have hi: "round_magnitude ?x \<le> of_int (?n + 1) - 1 / 2 ^ 45" by (simp only: g)
  then have "round_magnitude ?x < of_int (?n + 1)" by simp
  then have fin: "round_magnitude ?x < 2 ^ 1024"
  proof -
    have "?n \<le> 190 div 1" using assms by (intro zdiv_mono2) simp_all
    then have "?n \<le> 190" by simp
    then have "?n + 1 \<le> 191" by simp
    then have "(of_int (?n + 1) :: rat) \<le> of_int 191" by (simp only: of_int_le_iff)
    also have "\<dots> < 2 ^ 1024" by simp
    finally have "(of_int (?n + 1) :: rat) < 2 ^ 1024" .
    with \<open>round_magnitude ?x < of_int (?n + 1)\<close> show ?thesis by (rule less_trans)
  qed
  from c have "maxKanjiPerRow (DFin (of_int c)) = Math_floor (round_double ?x)"
    by (simp add: maxKanjiPerRow_def)
  also have "\<dots> = Fin \<lfloor>round_magnitude ?x\<rfloor>"
    using x fin by (rule round_double_positive)
  finally have "m = \<lfloor>round_magnitude ?x\<rfloor>" using m by simp
  moreover from \<open>round_magnitude ?x < of_int (?n + 1)\<close> have "\<lfloor>round_magnitude ?x\<rfloor> < ?n + 1"
    by (simp only: floor_less_iff)
  ultimately have "m = ?n" using lo by simp
  with m show ?thesis by simp
qed

lemma maxKanjiPerRow_20: "maxKanjiPerRow (DFin 20) = Fin 9"
  using maxKanjiPerRow_int [of 20] by simp

lemma maxKanjiPerRow_rounding_examples:
  "maxKanjiPerRow (DFin (8913374262504107 / 281474976710656)) = Fin 6"
  "\<lfloor>190 / (8913374262504107 / 281474976710656 :: rat)\<rfloor> = 5"
  "maxKanjiPerRow (DFin (2430920253410211 / 140737488355328)) = Fin 11"
  "\<lfloor>190 / (2430920253410211 / 140737488355328 :: rat)\<rfloor> = 10"
  "maxKanjiPerRow (DFin (1 / 10)) = Fin 1900"
  "maxKanjiPerRow (DFin (- 7 / 2)) = Fin (- 55)"
  "maxKanjiPerRow (DFin 0) = PosInf"
  "maxKanjiPerRow DNegZero = NegInf"
  by code_simp+

lemma maxKanjiPerRow_above_190:
  assumes "190 + 1 / 2 ^ 45 \<le> c"
  shows "maxKanjiPerRow (DFin c) = Fin 0"
proof -
  let ?x = "190 / c"
  from assms have c: "0 < c" by (simp add: add_pos_pos less_le_trans)
  then have x: "0 < ?x" by simp
  have "(190::rat) \<le> (1 - 1 / 2 ^ 53) * (190 + 1 / 2 ^ 45)" by simp
  also have "\<dots> \<le> (1 - 1 / 2 ^ 53) * c"
    using assms by (intro mult_left_mono) simp_all
  finally have x1: "?x \<le> 1 - 1 / 2 ^ 53" using c by (simp add: field_simps)
  then have "?x < 1" by simp
  from ilog2_less_one [OF x this] have e: "max (ilog2 ?x) (- 1022) - 52 \<le> - 53" by simp
  have g: "(1::rat) - 1 / 2 ^ 53 = of_int (2 ^ 53 - 1) * 2 powi (- 53)"
    by (simp add: power_int_minus field_simps)
  from x1 have "?x \<le> of_int (2 ^ 53 - 1) * 2 powi (- 53)" by (simp only: g)
  from round_magnitude_le [OF this e] have hi: "round_magnitude ?x \<le> 1 - 1 / 2 ^ 53"
    by (simp only: g)
  then have lt: "round_magnitude ?x < 1" by simp
  have "of_int 0 * 2 powi (- 53) \<le> ?x" using x by simp
  from round_magnitude_ge [OF this e] have lo: "0 \<le> round_magnitude ?x" by simp
  have "(1::rat) < 2 ^ 1024" by simp
  with lt have fin: "round_magnitude ?x < 2 ^ 1024" by (rule less_trans)
  from c have "maxKanjiPerRow (DFin c) = Math_floor (round_double ?x)"
    by (simp add: maxKanjiPerRow_def)
  also have "\<dots> = Fin \<lfloor>round_magnitude ?x\<rfloor>"
    using x fin by (rule round_double_positive)
  also have "\<lfloor>round_magnitude ?x\<rfloor> = 0" using lo lt by (simp add: floor_eq_iff)
  finally show ?thesis .
qed

lemma double_above_190:
  assumes "round_double c = DFin c" and "190 < c"
  shows "190 + 1 / 2 ^ 45 \<le> c"
proof -
  let ?E = "max (ilog2 c) (- 1022) - 52"
  let ?k = "round_half_even (c / 2 powi ?E)"
  from assms(2) have c: "0 < c" by simp
  from assms(1) c have "round_magnitude c = c"
    by (auto simp: round_double_def split: if_splits)
  then have ck: "c = of_int ?k * 2 powi ?E" by (simp only: round_magnitude_def)
  have "7 \<le> ilog2 c"
  proof (rule ccontr)
    assume "\<not> 7 \<le> ilog2 c"
    then have "ilog2 c + 1 \<le> 7" by simp
    then have "(2::rat) powi (ilog2 c + 1) \<le> 2 powi 7" by (intro power_int_increasing) simp_all
    moreover from ilog2_bounds [OF c] have "c < 2 powi (ilog2 c + 1)" by simp
    ultimately have "c < 2 powi 7" by simp
    with assms(2) show False by simp
  qed
  then have E: "- 45 \<le> ?E" by simp
  have "c / 2 powi (- 45) = of_int (?k * 2 ^ nat (?E - (- 45)))"
    using on_grid [OF E, of ?k] ck by simp
  then have cK: "c * 2 ^ 45 = of_int (?k * 2 ^ nat (?E + 45))"
    by (simp add: power_int_minus field_simps)
  from assms(2) have "(190::rat) * 2 ^ 45 < c * 2 ^ 45" by simp
  then have "(of_int (190 * 2 ^ 45) :: rat) < of_int (?k * 2 ^ nat (?E + 45))"
    unfolding cK by simp
  then have "190 * 2 ^ 45 < ?k * 2 ^ nat (?E + 45)" by (simp only: of_int_less_iff)
  then have "190 * 2 ^ 45 + 1 \<le> ?k * 2 ^ nat (?E + 45)" by simp
  then have "(of_int (190 * 2 ^ 45 + 1) :: rat) \<le> of_int (?k * 2 ^ nat (?E + 45))"
    by (simp only: of_int_le_iff)
  then have "190 * 2 ^ 45 + 1 \<le> c * 2 ^ 45" unfolding cK [symmetric] by simp
  then show ?thesis by (simp add: field_simps)
qed

lemma initial_kanjiSizeMm_200: "initial_kanjiSizeMm (Some [0x32, 0x30, 0x30]) = DFin 200"
  by code_simp

lemma initial_kanjiSizeMm_abc: "initial_kanjiSizeMm (Some [0x61, 0x62, 0x63]) = DNaN"
  by code_simp




section \<open>The Character Extractor: properties\<close>

lemma set_foldl_set_add: "set (foldl set_add acc xs) = set acc \<union> set xs"
  by (induction xs arbitrary: acc) (auto simp: set_add_def)

lemma distinct_foldl_set_add: "distinct acc \<Longrightarrow> distinct (foldl set_add acc xs)"
  by (induction xs arbitrary: acc) (auto simp: set_add_def)

lemma foldl_set_add_first_occurrences:
  "foldl set_add acc xs = acc @ first_occurrences (filter (\<lambda>y. y \<notin> set acc) xs)"
proof (induction xs arbitrary: acc)
  case Nil
  show ?case by simp
next
  case (Cons x xs)
  show ?case
  proof (cases "x \<in> set acc")
    case True
    then show ?thesis using Cons.IH [of acc] by (simp add: set_add_def)
  next
    case False
    have flt: "filter (\<lambda>y. y \<notin> set (acc @ [x])) xs
        = filter (\<lambda>y. y \<noteq> x) (filter (\<lambda>y. y \<notin> set acc) xs)"
      by (induction xs) auto
    have "foldl set_add acc (x # xs) = foldl set_add (acc @ [x]) xs"
      using False by (simp add: set_add_def)
    also have "\<dots> = (acc @ [x]) @ first_occurrences (filter (\<lambda>y. y \<notin> set (acc @ [x])) xs)"
      by (rule Cons.IH)
    also have "\<dots> = acc @ first_occurrences (filter (\<lambda>y. y \<notin> set acc) (x # xs))"
      using False by (simp only: flt) simp
    finally show ?thesis .
  qed
qed

lemma new_Set_first_occurrences: "new_Set xs = first_occurrences xs"
  using foldl_set_add_first_occurrences [of "[]" xs] by (simp add: new_Set_def)

lemma set_new_Set: "set (new_Set xs) = set xs"
  by (simp add: new_Set_def set_foldl_set_add)

lemma distinct_new_Set: "distinct (new_Set xs)"
  by (simp add: new_Set_def distinct_foldl_set_add)

lemma new_Set_Nil_iff: "new_Set xs = [] \<longleftrightarrow> xs = []"
  using set_new_Set [of xs] by (metis set_empty)

lemma extract_line_False: "extract_line False line = filter kanjiRegex line"
  by (simp add: extract_line_def string_match_def)

lemma extract_line_True: "extract_line True line = first_occurrences (filter kanjiRegex line)"
  by (simp add: extract_line_def string_match_def new_Set_first_occurrences)

lemma set_extract_line: "set (extract_line d line) = {c \<in> set line. kanjiRegex c}"
  by (cases d) (auto simp: extract_line_def string_match_def set_new_Set filter_empty_conv)

lemma extract_line_Nil_iff: "extract_line d line = [] \<longleftrightarrow> \<not> (\<exists>c\<in>set line. kanjiRegex c)"
proof -
  have "extract_line d line = [] \<longleftrightarrow> set (extract_line d line) = {}" by simp
  then show ?thesis unfolding set_extract_line by blast
qed

lemma extractKanjiByLines_eq:
  "extractKanjiByLines d text =
     map (extract_line d) (filter (\<lambda>src. \<exists>c\<in>set src. kanjiRegex c) (string_split 0x0A text))"
  unfolding extractKanjiByLines_def filter_map o_def length_greater_0_conv extract_line_Nil_iff
  by simp

text \<open>
  C1. For every input text and either value of the deduplicate flag, every character of
  every line of the extracted document lies in U+4E00 to U+9FAF or in U+3400 to U+4DBF,
  and every line of the document is non-empty: the document is made of the input lines that
  hold at least one character of the ranges, in their order, the others being dropped.
\<close>

theorem extractKanjiByLines_in_ranges:
  "(\<forall>line \<in> set (extractKanjiByLines dedupe text).
      line \<noteq> [] \<and>
      (\<forall>c \<in> set line. (0x4E00 \<le> c \<and> c \<le> 0x9FAF) \<or> (0x3400 \<le> c \<and> c \<le> 0x4DBF)))
   \<and> extractKanjiByLines dedupe text =
       map (extract_line dedupe)
         (filter (\<lambda>src. \<exists>c\<in>set src. kanjiRegex c) (string_split 0x0A text))"
proof -
  have "line \<noteq> [] \<and> (\<forall>c \<in> set line. kanjiRegex c)"
    if "line \<in> set (extractKanjiByLines dedupe text)" for line
  proof -
    from that obtain src where "line = extract_line dedupe src" and "line \<noteq> []"
      by (auto simp: extractKanjiByLines_def)
    then show ?thesis by (simp add: set_extract_line)
  qed
  then have "\<forall>line \<in> set (extractKanjiByLines dedupe text).
      line \<noteq> [] \<and>
      (\<forall>c \<in> set line. (0x4E00 \<le> c \<and> c \<le> 0x9FAF) \<or> (0x3400 \<le> c \<and> c \<le> 0x4DBF))"
    unfolding kanjiRegex_def by blast
  then show ?thesis
    using extractKanjiByLines_eq [of dedupe "text"] by blast
qed

theorem extractKanjiByLines_in_ranges_witness:
  "extractKanjiByLines True [0x41, 0x0A, 0x6F22, 0x5B57, 0x6F22] = [[0x6F22, 0x5B57]]
   \<and> [0x6F22, 0x5B57 :: 16 word] \<noteq> []
   \<and> (0x4E00 \<le> (0x6F22 :: 16 word) \<and> (0x6F22 :: 16 word) \<le> 0x9FAF)
   \<and> (0x4E00 \<le> (0x5B57 :: 16 word) \<and> (0x5B57 :: 16 word) \<le> 0x9FAF)"
proof -
  have e: "extractKanjiByLines True [0x41, 0x0A, 0x6F22, 0x5B57, 0x6F22] = [[0x6F22, 0x5B57]]"
    by (simp add: extractKanjiByLines_def extract_line_def string_match_def kanjiRegex_def
      new_Set_def set_add_def)
  from extractKanjiByLines_in_ranges [of True "[0x41, 0x0A, 0x6F22, 0x5B57, 0x6F22]"]
  have "\<forall>line \<in> set [[0x6F22, 0x5B57 :: 16 word]]. line \<noteq> [] \<and>
      (\<forall>c \<in> set line. (0x4E00 \<le> c \<and> c \<le> 0x9FAF) \<or> (0x3400 \<le> c \<and> c \<le> 0x4DBF))"
    unfolding e by (rule conjunct1)
  with e show ?thesis by simp
qed

lemma count_list_filter: "count_list (filter P xs) c = (if P c then count_list xs c else 0)"
  by (induction xs) auto

text \<open>
  C4. With the deduplicate flag on, no character occurs twice in a line of the document,
  and a line holds the first occurrences of its characters in the order of the input line;
  the removal is per line (the same character stays in two lines). With the flag off, a
  line holds the characters of the ranges as the input line has them, each as many times.
\<close>

theorem extractKanjiByLines_duplicates:
  "(\<forall>line \<in> set (extractKanjiByLines True text). distinct line)
   \<and> extractKanjiByLines True text =
       filter (\<lambda>line. line \<noteq> [])
         (map (\<lambda>src. first_occurrences (filter kanjiRegex src)) (string_split 0x0A text))
   \<and> extractKanjiByLines True [0x6F22, 0x0A, 0x6F22] = [[0x6F22], [0x6F22]]
   \<and> extractKanjiByLines False text =
       filter (\<lambda>line. line \<noteq> []) (map (filter kanjiRegex) (string_split 0x0A text))
   \<and> (\<forall>src c. kanjiRegex c \<longrightarrow> count_list (extract_line False src) c = count_list src c)
   \<and> (\<forall>src c. \<not> kanjiRegex c \<longrightarrow> count_list (extract_line False src) c = 0)"
proof -
  have a: "\<forall>line \<in> set (extractKanjiByLines True text). distinct line"
  proof
    fix line assume "line \<in> set (extractKanjiByLines True text)"
    then obtain src where "line = extract_line True src"
      by (auto simp: extractKanjiByLines_def)
    then show "distinct line"
      using distinct_new_Set [of "filter kanjiRegex src"]
      by (simp add: extract_line_True new_Set_first_occurrences)
  qed
  have b: "extractKanjiByLines True text =
       filter (\<lambda>line. line \<noteq> [])
         (map (\<lambda>src. first_occurrences (filter kanjiRegex src)) (string_split 0x0A text))"
    unfolding extractKanjiByLines_def length_greater_0_conv extract_line_True [abs_def] ..
  have c: "extractKanjiByLines True [0x6F22, 0x0A, 0x6F22] = [[0x6F22], [0x6F22]]"
    by (simp add: extractKanjiByLines_def extract_line_def string_match_def kanjiRegex_def
        new_Set_def set_add_def)
  have d: "extractKanjiByLines False text =
       filter (\<lambda>line. line \<noteq> []) (map (filter kanjiRegex) (string_split 0x0A text))"
    unfolding extractKanjiByLines_def length_greater_0_conv extract_line_False [abs_def] ..
  have e: "\<forall>src c. kanjiRegex c \<longrightarrow> count_list (extract_line False src) c = count_list src c"
    by (simp add: extract_line_False count_list_filter)
  have f: "\<forall>src c. \<not> kanjiRegex c \<longrightarrow> count_list (extract_line False src) c = 0"
    by (simp add: extract_line_False count_list_filter)
  from a b c d e f show ?thesis by (intro conjI)
qed

theorem extractKanjiByLines_duplicates_witness:
  "extractKanjiByLines True [0x6F22, 0x5B57, 0x6F22, 0x0A, 0x6F22]
     = [[0x6F22, 0x5B57], [0x6F22]]
   \<and> distinct [0x6F22, 0x5B57 :: 16 word]
   \<and> distinct [0x6F22 :: 16 word]
   \<and> extractKanjiByLines False [0x6F22, 0x5B57, 0x6F22, 0x0A, 0x6F22]
     = [[0x6F22, 0x5B57, 0x6F22], [0x6F22]]
   \<and> count_list (extract_line False [0x6F22, 0x5B57, 0x6F22]) 0x6F22 = 2"
proof -
  note inst = extractKanjiByLines_duplicates [of "[0x6F22, 0x5B57, 0x6F22, 0x0A, 0x6F22]"]
  have k: "kanjiRegex 0x6F22" "kanjiRegex 0x5B57" "\<not> kanjiRegex 0x0A"
    by (simp_all add: kanjiRegex_def)
  have t: "extractKanjiByLines True [0x6F22, 0x5B57, 0x6F22, 0x0A, 0x6F22]
      = [[0x6F22, 0x5B57], [0x6F22]]"
    using inst k by simp
  have f: "extractKanjiByLines False [0x6F22, 0x5B57, 0x6F22, 0x0A, 0x6F22]
      = [[0x6F22, 0x5B57, 0x6F22], [0x6F22]]"
    using inst k by simp
  from inst have "\<forall>line \<in> set (extractKanjiByLines True [0x6F22, 0x5B57, 0x6F22, 0x0A, 0x6F22]).
      distinct line"
    by (rule conjunct1)
  then have d: "distinct [0x6F22, 0x5B57 :: 16 word] \<and> distinct [0x6F22 :: 16 word]"
    unfolding t by simp
  from inst k have c: "count_list (extract_line False [0x6F22, 0x5B57, 0x6F22]) 0x6F22 = 2"
    by simp
  from t f d c show ?thesis by simp
qed

section \<open>The Orderer: properties\<close>

lemma insert_cmp_asc: "insert_cmp (\<lambda>a b. f a - f b) x ys = insort_key f x ys"
  by (induction ys) auto

lemma insert_cmp_desc: "insert_cmp (\<lambda>a b. f b - f a) x ys = insort_key (\<lambda>a. - f a) x ys"
  by (induction ys) auto

lemma array_sort_asc: "array_sort (\<lambda>a b. f a - f b) xs = sort_key f xs"
  by (induction xs) (simp_all add: array_sort_def insert_cmp_asc)

lemma array_sort_desc: "array_sort (\<lambda>a b. f b - f a) xs = sort_key (\<lambda>a. - f a) xs"
  by (induction xs) (simp_all add: array_sort_def insert_cmp_desc)

lemma mset_insert_cmp: "mset (insert_cmp compare x ys) = add_mset x (mset ys)"
  by (induction ys) auto

lemma mset_array_sort: "mset (array_sort compare xs) = mset xs"
  by (induction xs) (simp_all add: array_sort_def mset_insert_cmp)

lemma insort_key_decorate:
  "insort_key (\<lambda>p. h (snd p)) (x, f x) (map (\<lambda>k. (k, f k)) ys)
     = map (\<lambda>k. (k, f k)) (insort_key (\<lambda>k. h (f k)) x ys)"
  by (induction ys) auto

lemma sort_key_decorate:
  "map fst (sort_key (\<lambda>p. h (snd p)) (map (\<lambda>k. (k, f k)) xs)) = sort_key (\<lambda>k. h (f k)) xs"
proof -
  have "sort_key (\<lambda>p. h (snd p)) (map (\<lambda>k. (k, f k)) xs)
      = map (\<lambda>k. (k, f k)) (sort_key (\<lambda>k. h (f k)) xs)"
    by (induction xs) (simp_all add: insort_key_decorate)
  then show ?thesis by (simp add: o_def)
qed

lemma sort_line_stroke_asc:
  "sort_line ''stroke-asc'' c fetch paths line = sort_key (strokeCount c fetch paths) line"
  using sort_key_decorate [of "\<lambda>n. n" "strokeCount c fetch paths" line]
  by (simp add: sort_line_def array_sort_asc)

lemma sort_line_stroke_desc:
  "sort_line ''stroke-desc'' c fetch paths line
     = sort_key (\<lambda>k. - strokeCount c fetch paths k) line"
  using sort_key_decorate [of "\<lambda>n. - n" "strokeCount c fetch paths" line]
  by (simp add: sort_line_def array_sort_desc)

lemma sort_line_unicode_asc:
  "sort_line ''unicode-asc'' c fetch paths line = sort_key charCodeAt0 line"
  using sort_key_decorate [of "\<lambda>n. n" charCodeAt0 line]
  by (simp add: sort_line_def array_sort_asc)

lemma sort_line_unicode_desc:
  "sort_line ''unicode-desc'' c fetch paths line = sort_key (\<lambda>k. - charCodeAt0 k) line"
  using sort_key_decorate [of "\<lambda>n. - n" charCodeAt0 line]
  by (simp add: sort_line_def array_sort_desc)

lemma mset_sort_line: "mset (sort_line so c fetch paths line) = mset line"
proof -
  have "mset (map fst (array_sort compare (map (\<lambda>k. (k, f k)) line))) = mset line"
    for compare :: "kanji \<times> int \<Rightarrow> kanji \<times> int \<Rightarrow> int" and f
    by (simp add: mset_array_sort image_mset.compositionality o_def)
  then show ?thesis by (simp add: sort_line_def)
qed

lemma map_mset_sortKanji: "map mset (fst (sortKanji so c fetch paths doc)) = map mset doc"
  by (simp add: sortKanji_def mset_sort_line o_def)

lemma inj_charCodeAt0: "inj charCodeAt0"
  by (simp add: inj_on_def charCodeAt0_def word_uint_eq_iff)

lemma sort_key_neg_rev:
  fixes f :: "'a \<Rightarrow> int"
  assumes "inj f"
  shows "sort_key (\<lambda>k. - f k) xs = rev (sort_key f xs)"
proof -
  let ?g = "\<lambda>k. - f k"
  have inj: "inj ?g" using assms by (simp add: inj_on_def)
  have "sorted (map f (sort_key f xs))" by simp
  then have "sorted (rev (map ?g (sort_key f xs)))"
    by (simp add: sorted_wrt_rev sorted_wrt_map)
  then have s: "sorted (map ?g (rev (sort_key f xs)))" by (simp add: rev_map)
  have "map ?g (sort_key ?g xs) = sort (map ?g xs)"
    by (rule properties_for_sort [symmetric]) simp_all
  moreover have "map ?g (rev (sort_key f xs)) = sort (map ?g xs)"
    using s by (intro properties_for_sort [symmetric]) simp_all
  ultimately have "map ?g (sort_key ?g xs) = map ?g (rev (sort_key f xs))" by simp
  with inj show ?thesis by (simp add: inj_map_eq_map)
qed

lemma sorted_rev_map_neg:
  fixes f :: "'a \<Rightarrow> int"
  shows "sorted (rev (map f (sort_key (\<lambda>k. - f k) xs)))"
proof -
  have "sorted (map (\<lambda>k. - f k) (sort_key (\<lambda>k. - f k) xs))" by (rule sorted_sort_key)
  then show ?thesis by (simp add: sorted_wrt_rev sorted_wrt_map)
qed

lemma sort_key_neg_stable:
  fixes f :: "'a \<Rightarrow> int"
  shows "filter (\<lambda>x. f x = n) (sort_key (\<lambda>k. - f k) xs) = filter (\<lambda>x. f x = n) xs"
  using sort_key_stable [of "\<lambda>k. - f k" "- n" xs] by simp

text \<open>
  C5. The orders by code point sort every line by itself, stably, by the code of its
  characters, ascending or descending, and no order moves a character to another line: the
  lines keep their number and each its characters. The line U+6728, U+4E00, U+4EBA becomes
  U+4E00, U+4EBA, U+6728 in ascending order and the exact reverse in descending order. With
  the order \<^verbatim>\<open>none\<close> the document passes unchanged.
\<close>

theorem sortKanji_unicode:
  "sortKanji ''none'' c fetch paths doc = (doc, c)
   \<and> fst (sortKanji ''unicode-asc'' c fetch paths doc) = map (sort_key charCodeAt0) doc
   \<and> fst (sortKanji ''unicode-desc'' c fetch paths doc)
       = map (\<lambda>line. rev (sort_key charCodeAt0 line)) doc
   \<and> map mset (fst (sortKanji so c fetch paths doc)) = map mset doc
   \<and> sorted (map charCodeAt0 (sort_line ''unicode-asc'' c fetch paths line))
   \<and> sorted (rev (map charCodeAt0 (sort_line ''unicode-desc'' c fetch paths line)))
   \<and> filter (\<lambda>x. charCodeAt0 x = n) (sort_line ''unicode-asc'' c fetch paths line)
       = filter (\<lambda>x. charCodeAt0 x = n) line
   \<and> filter (\<lambda>x. charCodeAt0 x = n) (sort_line ''unicode-desc'' c fetch paths line)
       = filter (\<lambda>x. charCodeAt0 x = n) line
   \<and> fst (sortKanji ''unicode-asc'' c fetch paths [[0x6728, 0x4E00, 0x4EBA]])
       = [[0x4E00, 0x4EBA, 0x6728]]
   \<and> fst (sortKanji ''unicode-desc'' c fetch paths [[0x6728, 0x4E00, 0x4EBA]])
       = [[0x6728, 0x4EBA, 0x4E00]]"
proof -
  have none: "sortKanji ''none'' c fetch paths doc = (doc, c)"
    by (simp add: sortKanji_def)
  have asc: "fst (sortKanji ''unicode-asc'' c fetch paths d) = map (sort_key charCodeAt0) d"
    for d
    by (simp add: sortKanji_def sort_line_unicode_asc [abs_def])
  have desc: "fst (sortKanji ''unicode-desc'' c fetch paths d)
      = map (\<lambda>line. rev (sort_key charCodeAt0 line)) d" for d
    by (simp add: sortKanji_def sort_line_unicode_desc [abs_def]
        sort_key_neg_rev [OF inj_charCodeAt0])
  have ex: "sort_key charCodeAt0 [0x6728, 0x4E00, 0x4EBA] = [0x4E00, 0x4EBA, 0x6728]"
    by (simp add: charCodeAt0_def)
  have s1: "sorted (map charCodeAt0 (sort_line ''unicode-asc'' c fetch paths line))"
    by (simp add: sort_line_unicode_asc)
  have s2: "sorted (rev (map charCodeAt0 (sort_line ''unicode-desc'' c fetch paths line)))"
    unfolding sort_line_unicode_desc by (rule sorted_rev_map_neg)
  have f1: "filter (\<lambda>x. charCodeAt0 x = n) (sort_line ''unicode-asc'' c fetch paths line)
       = filter (\<lambda>x. charCodeAt0 x = n) line"
    unfolding sort_line_unicode_asc by (rule sort_key_stable)
  have f2: "filter (\<lambda>x. charCodeAt0 x = n) (sort_line ''unicode-desc'' c fetch paths line)
       = filter (\<lambda>x. charCodeAt0 x = n) line"
    unfolding sort_line_unicode_desc by (rule sort_key_neg_stable)
  have e1: "fst (sortKanji ''unicode-asc'' c fetch paths [[0x6728, 0x4E00, 0x4EBA]])
       = [[0x4E00, 0x4EBA, 0x6728]]"
    unfolding asc using ex by simp
  have e2: "fst (sortKanji ''unicode-desc'' c fetch paths [[0x6728, 0x4E00, 0x4EBA]])
       = [[0x6728, 0x4EBA, 0x4E00]]"
    unfolding desc using ex by simp
  from none asc [of doc] desc [of doc] map_mset_sortKanji [of so c fetch paths doc]
    s1 s2 f1 f2 e1 e2
  show ?thesis by (intro conjI)
qed

text \<open>
  C6. In the orders by stroke count every character of every line has an integer count:
  the cached one if there is one, otherwise the number of stroke paths of the provider's
  illustration, and 10 when the provider gives nothing. Every line is sorted stably by that
  count, ascending or descending. Whatever the provider answers, the sorted document has
  the lines and the characters of the document it was given.
\<close>

theorem sortKanji_stroke:
  "fst (sortKanji ''stroke-asc'' c fetch paths doc)
       = map (sort_key (strokeCount c fetch paths)) doc
   \<and> fst (sortKanji ''stroke-desc'' c fetch paths doc)
       = map (sort_key (\<lambda>k. - strokeCount c fetch paths k)) doc
   \<and> strokeCount c fetch paths k
       = (case c k of
            Some cached \<Rightarrow> cached
          | None \<Rightarrow> (case fetch k of
                       None \<Rightarrow> 10
                     | Some svg \<Rightarrow> if svg = [] then 10 else int (paths svg)))
   \<and> sorted (map (strokeCount c fetch paths) (sort_line ''stroke-asc'' c fetch paths line))
   \<and> sorted (rev (map (strokeCount c fetch paths)
                (sort_line ''stroke-desc'' c fetch paths line)))
   \<and> filter (\<lambda>x. strokeCount c fetch paths x = n) (sort_line ''stroke-asc'' c fetch paths line)
       = filter (\<lambda>x. strokeCount c fetch paths x = n) line
   \<and> filter (\<lambda>x. strokeCount c fetch paths x = n) (sort_line ''stroke-desc'' c fetch paths line)
       = filter (\<lambda>x. strokeCount c fetch paths x = n) line
   \<and> map mset (fst (sortKanji ''stroke-asc'' c fetch paths doc)) = map mset doc
   \<and> map mset (fst (sortKanji ''stroke-desc'' c fetch paths doc)) = map mset doc
   \<and> fst (sortKanji ''stroke-asc'' Map.empty (\<lambda>_. None) paths [[0x6728, 0x4E00, 0x4EBA]])
       = [[0x6728, 0x4E00, 0x4EBA]]"
proof -
  have asc: "fst (sortKanji ''stroke-asc'' c' fetch' paths d)
       = map (sort_key (strokeCount c' fetch' paths)) d" for c' fetch' d
    by (simp add: sortKanji_def sort_line_stroke_asc [abs_def])
  have desc: "fst (sortKanji ''stroke-desc'' c fetch paths doc)
       = map (sort_key (\<lambda>k. - strokeCount c fetch paths k)) doc"
    by (simp add: sortKanji_def sort_line_stroke_desc [abs_def])
  have cnt: "strokeCount c fetch paths k
       = (case c k of
            Some cached \<Rightarrow> cached
          | None \<Rightarrow> (case fetch k of
                       None \<Rightarrow> 10
                     | Some svg \<Rightarrow> if svg = [] then 10 else int (paths svg)))"
    by (simp add: strokeCount_def getStrokeCountFromKanjiVG_def split: option.splits)
  have s1: "sorted (map (strokeCount c fetch paths)
      (sort_line ''stroke-asc'' c fetch paths line))"
    by (simp add: sort_line_stroke_asc)
  have s2: "sorted (rev (map (strokeCount c fetch paths)
      (sort_line ''stroke-desc'' c fetch paths line)))"
    unfolding sort_line_stroke_desc by (rule sorted_rev_map_neg)
  have f1: "filter (\<lambda>x. strokeCount c fetch paths x = n)
        (sort_line ''stroke-asc'' c fetch paths line)
       = filter (\<lambda>x. strokeCount c fetch paths x = n) line"
    unfolding sort_line_stroke_asc by (rule sort_key_stable)
  have f2: "filter (\<lambda>x. strokeCount c fetch paths x = n)
        (sort_line ''stroke-desc'' c fetch paths line)
       = filter (\<lambda>x. strokeCount c fetch paths x = n) line"
    unfolding sort_line_stroke_desc by (rule sort_key_neg_stable)
  have ex: "fst (sortKanji ''stroke-asc'' Map.empty (\<lambda>_. None) paths [[0x6728, 0x4E00, 0x4EBA]])
       = [[0x6728, 0x4E00, 0x4EBA]]"
    unfolding asc by (simp add: strokeCount_def getStrokeCountFromKanjiVG_def)
  from asc [of c fetch doc] desc cnt s1 s2 f1 f2
    map_mset_sortKanji [of "''stroke-asc''" c fetch paths doc]
    map_mset_sortKanji [of "''stroke-desc''" c fetch paths doc] ex
  show ?thesis by (intro conjI)
qed

section \<open>The Page Layout Engine: properties\<close>

lemma relative_index_nat: "relative_index (Fin (int k)) n = min k n"
  by simp

lemma array_slice_chunk:
  assumes "i \<le> length xs"
  shows "array_slice xs (Fin (int i)) (Fin (int (i + m))) = take m (drop i xs)"
proof -
  have "min (i + m) (length xs) - min i (length xs) = min m (length xs - i)"
    using assms by simp
  moreover have "min i (length xs) = i" using assms by simp
  ultimately have "array_slice xs (Fin (int i)) (Fin (int (i + m)))
      = take (min m (length xs - i)) (drop i xs)"
    unfolding array_slice_def relative_index_nat by simp
  then show ?thesis by (simp add: min_def)
qed

lemma array_slice_all: "array_slice xs (Fin 0) PosInf = xs"
  by (simp add: array_slice_def)

lemma array_slice_NaN: "array_slice xs (Fin 0) NaN = []"
  by (simp add: array_slice_def)

lemma chunks_Nil [simp]: "chunks m [] = []"
  by (simp add: chunks.simps)

lemma chunks_step: "0 < m \<Longrightarrow> xs \<noteq> [] \<Longrightarrow> chunks m xs = take m xs # chunks m (drop m xs)"
  by (subst chunks.simps) simp

lemma row_loop_exit:
  "\<not> num_less i (Fin (int (length line)))
    \<Longrightarrow> row_loop mx sz li line i g rows = Some (g, rows)"
  by (subst row_loop.simps) simp

lemma row_loop_step:
  "num_less i (Fin (int (length line)))
    \<Longrightarrow> row_loop mx sz li line i g rows =
        row_loop mx sz li line (num_add i mx)
          (g + length (array_slice line i (num_add i mx)))
          (rows @ [row_pair sz li i g (array_slice line i (num_add i mx))])"
  by (subst row_loop.simps) simp

lemma row_loop_Fin:
  assumes "0 < m"
  shows "row_loop (Fin (int m)) sz li line (Fin (int i)) g rows =
     Some (g + (length line - i),
           rows @ pair_rows sz li (Fin (int i)) (Fin (int m)) g (chunks m (drop i line)))"
proof (induction "length line - i" arbitrary: i g rows rule: less_induct)
  case less
  show ?case
  proof (cases "i < length line")
    case False
    then show ?thesis by (simp add: row_loop_exit)
  next
    case True
    let ?c = "take m (drop i line)"
    have sl': "array_slice line (Fin (int i)) (Fin (int (i + m))) = ?c"
      using True array_slice_chunk [of i line m] by simp
    have ne: "drop i line \<noteq> []" using True by simp
    have len: "length ?c = min m (length line - i)" by simp
    have dd: "drop m (drop i line) = drop (i + m) line" by (simp add: add.commute)
    have "length line - (i + m) < length line - i" using True assms by simp
    from less [OF this, of "g + length ?c" "rows @ [row_pair sz li (Fin (int i)) g ?c]"]
    have ih: "row_loop (Fin (int m)) sz li line (Fin (int (i + m))) (g + length ?c)
          (rows @ [row_pair sz li (Fin (int i)) g ?c]) =
        Some (g + length ?c + (length line - (i + m)),
          (rows @ [row_pair sz li (Fin (int i)) g ?c]) @
            pair_rows sz li (Fin (int (i + m))) (Fin (int m)) (g + length ?c)
              (chunks m (drop (i + m) line)))" .
    have na: "num_add (Fin (int i)) (Fin (int m)) = Fin (int (i + m))" by simp
    have st: "row_loop (Fin (int m)) sz li line (Fin (int i)) g rows =
        row_loop (Fin (int m)) sz li line (Fin (int (i + m))) (g + length ?c)
          (rows @ [row_pair sz li (Fin (int i)) g ?c])"
      using True by (subst row_loop_step) (simp_all only: na sl', simp)
    have ar: "g + length ?c + (length line - (i + m)) = g + (length line - i)"
      using True by (simp add: min_def)
    have ch: "chunks m (drop i line) = ?c # chunks m (drop (i + m) line)"
      by (simp only: chunks_step [OF assms ne] dd)
    have pr: "pair_rows sz li (Fin (int i)) (Fin (int m)) g (?c # chunks m (drop (i + m) line))
        = row_pair sz li (Fin (int i)) g ?c
          # pair_rows sz li (Fin (int (i + m))) (Fin (int m)) (g + length ?c)
              (chunks m (drop (i + m) line))"
      by (simp only: pair_rows.simps na)
    show ?thesis
      unfolding st ih ar ch pr by simp
  qed
qed

lemma row_loop_PosInf:
  "row_loop PosInf sz li line (Fin 0) g rows =
     Some (g + length line, rows @ pair_rows sz li (Fin 0) PosInf g (chunks_of PosInf line))"
proof (cases "line = []")
  case True
  then show ?thesis by (simp add: row_loop_exit)
next
  case False
  then have "row_loop PosInf sz li line (Fin 0) g rows =
      row_loop PosInf sz li line PosInf (g + length line) (rows @ [row_pair sz li (Fin 0) g line])"
    by (subst row_loop_step) (simp_all add: array_slice_all)
  also have "\<dots> = Some (g + length line, rows @ [row_pair sz li (Fin 0) g line])"
    by (simp add: row_loop_exit)
  finally show ?thesis using False by simp
qed

lemma row_loop_NaN:
  "row_loop NaN sz li line (Fin 0) g rows =
     Some (g, if line = [] then rows else rows @ [row_pair sz li (Fin 0) g []])"
proof (cases "line = []")
  case True
  then show ?thesis by (simp add: row_loop_exit)
next
  case False
  then have "row_loop NaN sz li line (Fin 0) g rows =
      row_loop NaN sz li line NaN g (rows @ [row_pair sz li (Fin 0) g []])"
    by (subst row_loop_step) (simp_all add: array_slice_NaN)
  also have "\<dots> = Some (g, rows @ [row_pair sz li (Fin 0) g []])"
    by (simp add: row_loop_exit)
  finally show ?thesis using False by simp
qed

lemma num_le_1_cases:
  assumes "num_le (Fin 1) mx"
  obtains m where "mx = Fin (int m)" and "0 < m" | "mx = PosInf"
proof (cases mx)
  case (Fin k)
  with assms have "mx = Fin (int (nat k))" and "0 < nat k" by simp_all
  then show ?thesis by (rule that(1))
qed (use assms that in simp_all)

lemma row_loop_total:
  assumes "num_le (Fin 1) mx"
  shows "row_loop mx sz li line (Fin 0) g rows =
     Some (g + length line, rows @ pair_rows sz li (Fin 0) mx g (chunks_of mx line))"
  using assms
proof (cases mx rule: num_le_1_cases)
  case (1 m)
  then show ?thesis using row_loop_Fin [of m sz li line 0 g rows] by simp
next
  case 2
  then show ?thesis by (simp only: row_loop_PosInf)
qed

lemma forEach_line_total:
  assumes "num_le (Fin 1) mx"
  shows "forEach_line mx sz n li ls g rows = Some (rows @ spec_lines mx sz n li g ls)"
proof (induction ls arbitrary: li g rows)
  case Nil
  show ?case by simp
next
  case (Cons l ls)
  have c: "(int li < int n - 1) = (Suc li < n)" by auto
  show ?case
    by (simp add: row_loop_total [OF assms] Cons.IH c)
qed

lemma createDrillLayout_total:
  "num_le (Fin 1) mx \<Longrightarrow> createDrillLayout mx sz doc = Some (spec_layout mx sz doc)"
  by (simp add: createDrillLayout_def spec_layout_def forEach_line_total)

lemma forEach_line_NaN: "forEach_line NaN sz n li ls g rows \<noteq> None"
  by (induction ls arbitrary: li g rows) (simp_all add: row_loop_NaN)

lemma createDrillLayout_NaN: "createDrillLayout NaN sz doc \<noteq> None"
  by (simp add: createDrillLayout_def forEach_line_NaN)

lemma row_loop_diverges_aux:
  assumes "row_loop mx sz li line i g rows = Some y"
  shows "\<not> (stuck mx \<and> stuck i \<and> line \<noteq> [])"
proof (rule row_loop.raw_induct
    [where P = "\<lambda>mx sz li line i g rows y. \<not> (stuck mx \<and> stuck i \<and> line \<noteq> [])", OF _ assms])
  fix f :: "number \<Rightarrow> double \<Rightarrow> nat \<Rightarrow> kanji list \<Rightarrow> number \<Rightarrow> nat \<Rightarrow> element list
    \<Rightarrow> (nat \<times> element list) option"
  fix mx sz li line i g rows y
  assume ih: "\<And>mx sz li line i g rows y. f mx sz li line i g rows = Some y
      \<Longrightarrow> \<not> (stuck mx \<and> stuck i \<and> line \<noteq> [])"
  assume body: "(if num_less i (Fin (int (length line)))
      then f mx sz li line (num_add i mx)
            (g + length (array_slice line i (num_add i mx)))
            (rows @ [row_pair sz li i g (array_slice line i (num_add i mx))])
      else Some (g, rows)) = Some y"
  show "\<not> (stuck mx \<and> stuck i \<and> line \<noteq> [])"
  proof
    assume a: "stuck mx \<and> stuck i \<and> line \<noteq> []"
    then obtain x xs where "line = x # xs" by (cases line) auto
    with a have lt: "num_less i (Fin (int (length line)))"
      by (cases i) auto
    from a have st: "stuck (num_add i mx)"
      by (cases i; cases mx) auto
    from body lt have "f mx sz li line (num_add i mx)
          (g + length (array_slice line i (num_add i mx)))
          (rows @ [row_pair sz li i g (array_slice line i (num_add i mx))]) = Some y"
      by simp
    from ih [OF this] a st show False by simp
  qed
qed

lemma row_loop_diverges:
  "stuck mx \<Longrightarrow> line \<noteq> [] \<Longrightarrow> row_loop mx sz li line (Fin 0) g rows = None"
  using row_loop_diverges_aux [of mx sz li line "Fin 0" g rows]
  by (cases "row_loop mx sz li line (Fin 0) g rows") auto

lemma stuck_iff: "stuck mx \<longleftrightarrow> \<not> num_le (Fin 1) mx \<and> mx \<noteq> NaN"
  by (cases mx) auto

lemma forEach_line_diverges:
  assumes "stuck mx" and "\<exists>l\<in>set ls. l \<noteq> []"
  shows "forEach_line mx sz n li ls g rows = None"
  using assms(2)
proof (induction ls arbitrary: li g rows)
  case Nil
  then show ?case by simp
next
  case (Cons l ls)
  show ?case
  proof (cases "l = []")
    case True
    with Cons.prems have "\<exists>l\<in>set ls. l \<noteq> []" by simp
    with True show ?thesis by (simp add: row_loop_exit Cons.IH)
  next
    case False
    then show ?thesis by (simp add: row_loop_diverges [OF assms(1)])
  qed
qed

lemma createDrillLayout_diverges:
  "stuck mx \<Longrightarrow> \<exists>l\<in>set doc. l \<noteq> [] \<Longrightarrow> createDrillLayout mx sz doc = None"
  by (simp add: createDrillLayout_def forEach_line_diverges)

lemma concat_chunks: "0 < m \<Longrightarrow> concat (chunks m xs) = xs"
proof (induction m xs rule: chunks.induct)
  case (1 m xs)
  show ?case
  proof (cases "xs = []")
    case True
    then show ?thesis by simp
  next
    case False
    with 1 show ?thesis by (simp add: chunks_step)
  qed
qed

lemma chunks_bound: "0 < m \<Longrightarrow> c \<in> set (chunks m xs) \<Longrightarrow> length c \<le> m \<and> c \<noteq> []"
proof (induction m xs rule: chunks.induct)
  case (1 m xs)
  show ?case
  proof (cases "xs = []")
    case True
    with 1 show ?thesis by simp
  next
    case False
    with 1 show ?thesis by (auto simp: chunks_step)
  qed
qed

lemma chunks_short:
  assumes "xs \<noteq> []" and "length xs \<le> m"
  shows "chunks m xs = [xs]"
proof -
  from assms have m: "0 < m" by (cases xs) auto
  have "chunks m xs = take m xs # chunks m (drop m xs)"
    using m assms(1) by (rule chunks_step)
  moreover have "take m xs = xs" and "drop m xs = []"
    using assms(2) by simp_all
  ultimately show ?thesis by (simp only: chunks_Nil)
qed

lemma concat_chunks_of: "num_le (Fin 1) mx \<Longrightarrow> concat (chunks_of mx xs) = xs"
  by (cases mx rule: num_le_1_cases) (simp_all add: concat_chunks)

lemma chunks_of_bound:
  "num_le (Fin 1) mx \<Longrightarrow> c \<in> set (chunks_of mx xs) \<Longrightarrow> num_le (Fin (int (length c))) mx"
  by (cases mx rule: num_le_1_cases) (auto dest: chunks_bound split: if_splits)

lemma chunks_of_short:
  "xs \<noteq> [] \<Longrightarrow> num_le (Fin (int (length xs))) mx \<Longrightarrow> chunks_of mx xs = [xs]"
  by (cases mx) (simp_all add: chunks_short)

lemma kanji_display_row: "map kanji (display_row sz b g c) = c"
proof -
  have "map kanji (display_row sz b g c) = map snd (enumerate 0 c)"
    by (simp add: display_row_def case_prod_unfold o_def)
  then show ?thesis by simp
qed

lemma row_chars_row_pair: "row_chars (row_pair sz li i g c) = c"
  by (simp add: row_pair_def kanji_display_row)

lemma row_chars_pair_rows: "map row_chars (pair_rows sz li i mx g cs) = cs"
  by (induction cs arbitrary: i g) (simp_all add: row_chars_row_pair)

lemma showNumbers_display_row: "d \<in> set (display_row sz b g c) \<Longrightarrow> showNumbers d = b"
  by (auto simp: display_row_def)

lemma annotated_row_pair: "annotated_then_plain (row_pair sz li i g c)"
  by (simp add: row_pair_def kanji_display_row list_all_iff showNumbers_display_row)

lemma pair_rows_elements:
  "e \<in> set (pair_rows sz li i mx g cs) \<Longrightarrow> \<not> is_break e \<and> annotated_then_plain e"
proof (induction cs arbitrary: i g)
  case Nil
  then show ?case by simp
next
  case (Cons c cs)
  then show ?case using annotated_row_pair [of sz li i g c]
    by (auto simp: row_pair_def)
qed

lemma line_blocks_not_Nil: "line_blocks es \<noteq> []"
  by (induction es rule: line_blocks.induct) (simp_all split: list.splits)

lemma line_blocks_no_break:
  "\<forall>e\<in>set ps. \<not> is_break e \<Longrightarrow> line_blocks ps = [ps]"
proof (induction ps)
  case Nil
  show ?case by simp
next
  case (Cons p ps)
  then show ?case by (cases p) simp_all
qed

lemma line_blocks_append_break:
  "\<forall>e\<in>set ps. \<not> is_break e \<Longrightarrow> line_blocks (ps @ LineBreak k # es) = ps # line_blocks es"
proof (induction ps)
  case Nil
  show ?case by simp
next
  case (Cons p ps)
  then show ?case by (cases p) simp_all
qed

lemma spec_lines_blocks:
  assumes "ls \<noteq> []" and "n = li + length ls"
  shows "map (map row_chars) (line_blocks (spec_lines mx sz n li g ls)) = map (chunks_of mx) ls"
  using assms
proof (induction ls arbitrary: li g)
  case Nil
  then show ?case by simp
next
  case (Cons l ls)
  let ?ps = "pair_rows sz li (Fin 0) mx g (chunks_of mx l)"
  have nb: "\<forall>e\<in>set ?ps. \<not> is_break e" using pair_rows_elements by blast
  show ?case
  proof (cases "ls = []")
    case True
    with Cons.prems have "\<not> Suc li < n" by simp
    with True show ?thesis
      by (simp add: line_blocks_no_break [OF nb] row_chars_pair_rows)
  next
    case False
    with Cons.prems have lt: "Suc li < n" and n: "n = Suc li + length ls"
      by (cases ls; simp)+
    have "spec_lines mx sz n li g (l # ls)
        = ?ps @ LineBreak li # spec_lines mx sz n (Suc li) (g + length l) ls"
      using lt by simp
    then show ?thesis
      using Cons.IH [OF False n, of "g + length l"]
      by (simp add: line_blocks_append_break [OF nb] row_chars_pair_rows)
  qed
qed

lemma spec_lines_breaks:
  assumes "n = li + length ls"
  shows "length (filter is_break (spec_lines mx sz n li g ls)) = length ls - 1"
  using assms
proof (induction ls arbitrary: li g)
  case Nil
  then show ?case by simp
next
  case (Cons l ls)
  let ?ps = "pair_rows sz li (Fin 0) mx g (chunks_of mx l)"
  have nb: "filter is_break ?ps = []"
    using pair_rows_elements by (auto simp: filter_empty_conv)
  from Cons.prems have n: "n = Suc li + length ls" by simp
  show ?case
  proof (cases "ls = []")
    case True
    with Cons.prems show ?thesis by (simp add: nb)
  next
    case False
    with n have "Suc li < n" by (cases ls) simp_all
    then show ?thesis using Cons.IH [OF n, of "g + length l"] False
      by (cases ls) (simp_all add: nb)
  qed
qed

lemma spec_lines_elements:
  assumes "num_le (Fin 1) mx" and "e \<in> set (spec_lines mx sz n li g ls)"
  shows "num_le (Fin (int (length (row_chars e)))) mx \<and> annotated_then_plain e"
  using assms(2)
proof (induction ls arbitrary: li g)
  case Nil
  then show ?case by simp
next
  case (Cons l ls)
  let ?ps = "pair_rows sz li (Fin 0) mx g (chunks_of mx l)"
  from Cons.prems consider
      (pair) "e \<in> set ?ps"
    | (break) "e = LineBreak li"
    | (rest) "e \<in> set (spec_lines mx sz n (Suc li) (g + length l) ls)"
    by (auto split: if_splits)
  then show ?case
  proof cases
    case pair
    then have "row_chars e \<in> set (map row_chars ?ps)" by simp
    then have "row_chars e \<in> set (chunks_of mx l)" by (simp only: row_chars_pair_rows)
    with assms(1) pair show ?thesis
      by (simp add: chunks_of_bound pair_rows_elements)
  next
    case break
    with assms(1) show ?thesis by (cases mx) simp_all
  next
    case rest
    then show ?thesis by (rule Cons.IH)
  qed
qed

text \<open>
  C2. For every document with at least one line and every number of characters in a row
  that is at least 1, the layout returns, no row holds more characters than fit in a row,
  and the rows between two line breaks, concatenated in order, are the line they come
  from: cut at its line breaks, the output gives back the document. A non-empty line that
  fits in one row gives one pair of rows, with the whole line.
\<close>

theorem createDrillLayout_chunks:
  assumes "num_le (Fin 1) mx" and "doc \<noteq> []"
  shows "\<exists>rows. createDrillLayout mx sz doc = Some rows
     \<and> (\<forall>r\<in>set rows. num_le (Fin (int (length (row_chars r)))) mx)
     \<and> map (\<lambda>block. concat (map row_chars block)) (line_blocks rows) = doc
     \<and> (\<forall>k<length doc.
           doc ! k \<noteq> [] \<and> num_le (Fin (int (length (doc ! k)))) mx
           \<longrightarrow> map row_chars (line_blocks rows ! k) = [doc ! k])"
proof -
  let ?rows = "spec_layout mx sz doc"
  have run: "createDrillLayout mx sz doc = Some ?rows"
    using assms(1) by (rule createDrillLayout_total)
  have len: "\<forall>r\<in>set ?rows. num_le (Fin (int (length (row_chars r)))) mx"
    using spec_lines_elements [OF assms(1)] unfolding spec_layout_def by blast
  have blocks: "map (map row_chars) (line_blocks ?rows) = map (chunks_of mx) doc"
    unfolding spec_layout_def using assms(2) by (intro spec_lines_blocks) simp_all
  have "map (\<lambda>block. concat (map row_chars block)) (line_blocks ?rows)
      = map concat (map (map row_chars) (line_blocks ?rows))"
    by (simp add: o_def)
  also have "\<dots> = map (\<lambda>l. concat (chunks_of mx l)) doc"
    unfolding blocks by (simp add: o_def)
  also have "\<dots> = doc"
    by (simp add: concat_chunks_of [OF assms(1)])
  finally have cat: "map (\<lambda>block. concat (map row_chars block)) (line_blocks ?rows) = doc" .
  have short: "map row_chars (line_blocks ?rows ! k) = [doc ! k]"
    if k: "k < length doc" and ne: "doc ! k \<noteq> []"
      and le: "num_le (Fin (int (length (doc ! k)))) mx" for k
  proof -
    from blocks have "length (line_blocks ?rows) = length doc"
      by (metis length_map)
    with k have "map row_chars (line_blocks ?rows ! k)
        = map (map row_chars) (line_blocks ?rows) ! k"
      by simp
    also have "\<dots> = chunks_of mx (doc ! k)"
      unfolding blocks using k by simp
    also have "\<dots> = [doc ! k]"
      using ne le by (rule chunks_of_short)
    finally show ?thesis .
  qed
  from run len cat short show ?thesis by blast
qed

theorem createDrillLayout_chunks_witness:
  "num_le (Fin 1) (Fin 2)
   \<and> [[0x6F22, 0x5B57, 0x6728], [0x4E00 :: 16 word]] \<noteq> []
   \<and> (\<exists>rows. createDrillLayout (Fin 2) (DFin 20) [[0x6F22, 0x5B57, 0x6728], [0x4E00]] = Some rows
         \<and> map row_chars rows = [[0x6F22, 0x5B57], [0x6728], [], [0x4E00]]
         \<and> map (\<lambda>block. concat (map row_chars block)) (line_blocks rows)
             = [[0x6F22, 0x5B57, 0x6728], [0x4E00]]
         \<and> map row_chars (line_blocks rows ! 1) = [[0x4E00]])"
proof -
  let ?doc = "[[0x6F22, 0x5B57, 0x6728], [0x4E00 :: 16 word]]"
  have h1: "num_le (Fin 1) (Fin 2)" by simp
  have h2: "?doc \<noteq> []" by simp
  from createDrillLayout_chunks [OF h1 h2, of "DFin 20"]
  obtain rows where all: "createDrillLayout (Fin 2) (DFin 20) ?doc = Some rows
     \<and> (\<forall>r\<in>set rows. num_le (Fin (int (length (row_chars r)))) (Fin 2))
     \<and> map (\<lambda>block. concat (map row_chars block)) (line_blocks rows) = ?doc
     \<and> (\<forall>k<length ?doc.
           ?doc ! k \<noteq> [] \<and> num_le (Fin (int (length (?doc ! k)))) (Fin 2)
           \<longrightarrow> map row_chars (line_blocks rows ! k) = [?doc ! k])" ..
  note run = all [THEN conjunct1]
  note cat = all [THEN conjunct2, THEN conjunct2, THEN conjunct1]
  note short = all [THEN conjunct2, THEN conjunct2, THEN conjunct2, rule_format, of 1]
  from run have "rows = spec_layout (Fin 2) (DFin 20) ?doc"
    by (simp add: createDrillLayout_total)
  then have chars: "map row_chars rows = [[0x6F22, 0x5B57], [0x6728], [], [0x4E00]]"
    by (simp add: spec_layout_def chunks.simps row_chars_row_pair)
  from short have one: "map row_chars (line_blocks rows ! 1) = [[0x4E00]]"
    by simp
  have "createDrillLayout (Fin 2) (DFin 20) ?doc = Some rows
         \<and> map row_chars rows = [[0x6F22, 0x5B57], [0x6728], [], [0x4E00]]
         \<and> map (\<lambda>block. concat (map row_chars block)) (line_blocks rows) = ?doc
         \<and> map row_chars (line_blocks rows ! 1) = [[0x4E00]]"
    using run chars cat one by (intro conjI)
  then have "\<exists>rows. createDrillLayout (Fin 2) (DFin 20) ?doc = Some rows
         \<and> map row_chars rows = [[0x6F22, 0x5B57], [0x6728], [], [0x4E00]]
         \<and> map (\<lambda>block. concat (map row_chars block)) (line_blocks rows) = ?doc
         \<and> map row_chars (line_blocks rows ! 1) = [[0x4E00]]" ..
  with h1 h2 show ?thesis by (intro conjI)
qed

text \<open>
  C3. Under the same conditions the output is the layout as the specification words it:
  one pair of rows for each chunk of each line, the row with the stroke numbers first and
  the row without them second, both with the characters of the chunk in order; and one
  line break after the chunks of every line but the last, so that the line breaks are one
  fewer than the lines and cut the output into the lines' lists of chunks.
\<close>

theorem createDrillLayout_rows:
  assumes "num_le (Fin 1) mx" and "doc \<noteq> []"
  shows "\<exists>rows. createDrillLayout mx sz doc = Some rows
     \<and> rows = spec_layout mx sz doc
     \<and> list_all annotated_then_plain rows
     \<and> map (map row_chars) (line_blocks rows) = map (chunks_of mx) doc
     \<and> length (filter is_break rows) = length doc - 1"
proof -
  let ?rows = "spec_layout mx sz doc"
  have run: "createDrillLayout mx sz doc = Some ?rows"
    using assms(1) by (rule createDrillLayout_total)
  have ann: "list_all annotated_then_plain ?rows"
    using spec_lines_elements [OF assms(1)] unfolding spec_layout_def list_all_iff by blast
  have blocks: "map (map row_chars) (line_blocks ?rows) = map (chunks_of mx) doc"
    unfolding spec_layout_def using assms(2) by (intro spec_lines_blocks) simp_all
  have breaks: "length (filter is_break ?rows) = length doc - 1"
    unfolding spec_layout_def by (intro spec_lines_breaks) simp
  from run ann blocks breaks show ?thesis by blast
qed

theorem createDrillLayout_rows_witness:
  "num_le (Fin 1) (Fin 2)
   \<and> [[0x6F22, 0x5B57, 0x6728], [0x4E00 :: 16 word]] \<noteq> []
   \<and> (\<exists>rows. createDrillLayout (Fin 2) (DFin 20) [[0x6F22, 0x5B57, 0x6728], [0x4E00]] = Some rows
         \<and> list_all annotated_then_plain rows
         \<and> map (map row_chars) (line_blocks rows) = [[[0x6F22, 0x5B57], [0x6728]], [[0x4E00]]]
         \<and> length (filter is_break rows) = 1)"
proof -
  let ?doc = "[[0x6F22, 0x5B57, 0x6728], [0x4E00 :: 16 word]]"
  have h1: "num_le (Fin 1) (Fin 2)" by simp
  have h2: "?doc \<noteq> []" by simp
  from createDrillLayout_rows [OF h1 h2, of "DFin 20"]
  obtain rows where all: "createDrillLayout (Fin 2) (DFin 20) ?doc = Some rows
     \<and> rows = spec_layout (Fin 2) (DFin 20) ?doc
     \<and> list_all annotated_then_plain rows
     \<and> map (map row_chars) (line_blocks rows) = map (chunks_of (Fin 2)) ?doc
     \<and> length (filter is_break rows) = length ?doc - 1" ..
  note run = all [THEN conjunct1]
  note ann = all [THEN conjunct2, THEN conjunct2, THEN conjunct1]
  note blocks = all [THEN conjunct2, THEN conjunct2, THEN conjunct2, THEN conjunct1]
  note breaks = all [THEN conjunct2, THEN conjunct2, THEN conjunct2, THEN conjunct2]
  have "map (chunks_of (Fin 2)) ?doc = [[[0x6F22, 0x5B57], [0x6728]], [[0x4E00]]]"
    by (simp add: chunks.simps)
  with blocks have b: "map (map row_chars) (line_blocks rows)
      = [[[0x6F22, 0x5B57], [0x6728]], [[0x4E00]]]"
    by (simp only:)
  from breaks have c: "length (filter is_break rows) = 1" by simp
  have "createDrillLayout (Fin 2) (DFin 20) ?doc = Some rows
         \<and> list_all annotated_then_plain rows
         \<and> map (map row_chars) (line_blocks rows) = [[[0x6F22, 0x5B57], [0x6728]], [[0x4E00]]]
         \<and> length (filter is_break rows) = 1"
    using run ann b c by (intro conjI)
  then have "\<exists>rows. createDrillLayout (Fin 2) (DFin 20) ?doc = Some rows
         \<and> list_all annotated_then_plain rows
         \<and> map (map row_chars) (line_blocks rows) = [[[0x6F22, 0x5B57], [0x6728]], [[0x4E00]]]
         \<and> length (filter is_break rows) = 1" ..
  with h1 h2 show ?thesis by (intro conjI)
qed

lemma createDrillLayout_example:
  "createDrillLayout (Fin 9) (DFin 20) [[0x6F22, 0x5B57], [0x6F22, 0x5B57]] =
     Some [KanjiPair 0 (Fin 0)
             [KanjiDisplay 0 0x6F22 (DFin 20) True, KanjiDisplay 1 0x5B57 (DFin 20) True]
             [KanjiDisplay 0 0x6F22 (DFin 20) False, KanjiDisplay 1 0x5B57 (DFin 20) False],
           LineBreak 0,
           KanjiPair 1 (Fin 0)
             [KanjiDisplay 2 0x6F22 (DFin 20) True, KanjiDisplay 3 0x5B57 (DFin 20) True]
             [KanjiDisplay 2 0x6F22 (DFin 20) False, KanjiDisplay 3 0x5B57 (DFin 20) False]]"
  by (simp add: createDrillLayout_total spec_layout_def chunks.simps row_pair_def
      display_row_def)

lemma createDrillLayout_two_short_lines:
  assumes "l1 \<noteq> []" "length l1 \<le> 9" "l2 \<noteq> []" "length l2 \<le> 9"
  shows "createDrillLayout (Fin 9) sz [l1, l2] =
     Some [row_pair sz 0 (Fin 0) 0 l1, LineBreak 0, row_pair sz 1 (Fin 0) (length l1) l2]"
  using assms by (simp add: createDrillLayout_total spec_layout_def chunks_short)

lemma pipeline_any_order:
  fixes so fetch paths c old
  defines "st \<equiv> \<lparr>inputText = [0x6F22, 0x5B57, 0x0A, 0x6F22, 0x5B57], kanjiSizeMm = DFin 20,
         removeDuplicates = True, sortOrder = so, strokeCache = c,
         sortedKanjiLines = old\<rparr>"
  shows "\<exists>l1 l2. sortedKanjiLines (processKanji fetch paths st) = [l1, l2]
      \<and> mset l1 = {#0x6F22, 0x5B57#} \<and> mset l2 = {#0x6F22, 0x5B57#}
      \<and> render (processKanji fetch paths st)
          = Some [row_pair (DFin 20) 0 (Fin 0) 0 l1, LineBreak 0, row_pair (DFin 20) 1 (Fin 0) 2 l2]"
proof -
  let ?doc = "[[0x6F22, 0x5B57], [0x6F22, 0x5B57 :: 16 word]]"
  have e: "extractKanjiByLines True [0x6F22, 0x5B57, 0x0A, 0x6F22, 0x5B57] = ?doc"
    by (simp add: extractKanjiByLines_def extract_line_def string_match_def kanjiRegex_def
        new_Set_def set_add_def)
  have s: "sortedKanjiLines (processKanji fetch paths st) = fst (sortKanji so c fetch paths ?doc)"
    by (simp add: processKanji_def st_def e split: prod.splits)
  have k: "kanjiSizeMm (processKanji fetch paths st) = DFin 20"
    by (simp add: processKanji_def st_def split: prod.splits)
  have "map mset (fst (sortKanji so c fetch paths ?doc)) = map mset ?doc"
    by (rule map_mset_sortKanji)
  then obtain l1 l2 where l: "fst (sortKanji so c fetch paths ?doc) = [l1, l2]"
    and m1: "mset l1 = mset [0x6F22, 0x5B57]" and m2: "mset l2 = mset [0x6F22, 0x5B57]"
    by (auto simp: map_eq_Cons_conv simp del: mset.simps)
  from m1 have n1: "length l1 = 2" by (metis length_Cons list.size(3) mset_eq_length numeral_2_eq_2)
  from m2 have n2: "length l2 = 2" by (metis length_Cons list.size(3) mset_eq_length numeral_2_eq_2)
  have "render (processKanji fetch paths st)
      = Some [row_pair (DFin 20) 0 (Fin 0) 0 l1, LineBreak 0, row_pair (DFin 20) 1 (Fin 0) 2 l2]"
  proof -
    from n1 n2 have "l1 \<noteq> []" "length l1 \<le> 9" "l2 \<noteq> []" "length l2 \<le> 9" by auto
    from createDrillLayout_two_short_lines [OF this, of "DFin 20"] n1
    show ?thesis by (simp add: render_def s l k maxKanjiPerRow_20)
  qed
  with s l m1 m2 show ?thesis by simp
qed

text \<open>
  C8. The scenario of the specification: the text U+6F22 U+5B57, a line feed, U+6F22 U+5B57,
  with the duplicates removed, the cell size 20 and the order \<^verbatim>\<open>none\<close>. The extractor
  gives two lines, each U+6F22 U+5B57; a row holds 9 characters; the output is one pair of
  rows for each line, each pair with the two characters, and one line break between them.
  In any other order the output has the same shape: each line is sorted by itself and keeps
  its two characters.
\<close>

theorem pipeline_scenario:
  "extractKanjiByLines True [0x6F22, 0x5B57, 0x0A, 0x6F22, 0x5B57]
     = [[0x6F22, 0x5B57], [0x6F22, 0x5B57]]
   \<and> maxKanjiPerRow (DFin 20) = Fin 9
   \<and> render (processKanji fetch paths
        \<lparr>inputText = [0x6F22, 0x5B57, 0x0A, 0x6F22, 0x5B57], kanjiSizeMm = DFin 20,
         removeDuplicates = True, sortOrder = ''none'', strokeCache = c,
         sortedKanjiLines = old\<rparr>)
     = Some [KanjiPair 0 (Fin 0)
               [KanjiDisplay 0 0x6F22 (DFin 20) True, KanjiDisplay 1 0x5B57 (DFin 20) True]
               [KanjiDisplay 0 0x6F22 (DFin 20) False, KanjiDisplay 1 0x5B57 (DFin 20) False],
             LineBreak 0,
             KanjiPair 1 (Fin 0)
               [KanjiDisplay 2 0x6F22 (DFin 20) True, KanjiDisplay 3 0x5B57 (DFin 20) True]
               [KanjiDisplay 2 0x6F22 (DFin 20) False, KanjiDisplay 3 0x5B57 (DFin 20) False]]
   \<and> (\<exists>l1 l2.
        sortedKanjiLines (processKanji fetch paths
          \<lparr>inputText = [0x6F22, 0x5B57, 0x0A, 0x6F22, 0x5B57], kanjiSizeMm = DFin 20,
           removeDuplicates = True, sortOrder = so, strokeCache = c,
           sortedKanjiLines = old\<rparr>) = [l1, l2]
        \<and> mset l1 = {#0x6F22, 0x5B57#} \<and> mset l2 = {#0x6F22, 0x5B57#}
        \<and> render (processKanji fetch paths
          \<lparr>inputText = [0x6F22, 0x5B57, 0x0A, 0x6F22, 0x5B57], kanjiSizeMm = DFin 20,
           removeDuplicates = True, sortOrder = so, strokeCache = c,
           sortedKanjiLines = old\<rparr>)
          = Some [row_pair (DFin 20) 0 (Fin 0) 0 l1, LineBreak 0,
                  row_pair (DFin 20) 1 (Fin 0) 2 l2])"
proof -
  have e: "extractKanjiByLines True [0x6F22, 0x5B57, 0x0A, 0x6F22, 0x5B57]
     = [[0x6F22, 0x5B57], [0x6F22, 0x5B57]]"
    by (simp add: extractKanjiByLines_def extract_line_def string_match_def kanjiRegex_def
        new_Set_def set_add_def)
  have m: "maxKanjiPerRow (DFin 20) = Fin 9" by (rule maxKanjiPerRow_20)
  have p: "processKanji fetch paths
        \<lparr>inputText = [0x6F22, 0x5B57, 0x0A, 0x6F22, 0x5B57], kanjiSizeMm = DFin 20,
         removeDuplicates = True, sortOrder = ''none'', strokeCache = c,
         sortedKanjiLines = old\<rparr>
      = \<lparr>inputText = [0x6F22, 0x5B57, 0x0A, 0x6F22, 0x5B57], kanjiSizeMm = DFin 20,
         removeDuplicates = True, sortOrder = ''none'', strokeCache = c,
         sortedKanjiLines = [[0x6F22, 0x5B57], [0x6F22, 0x5B57]]\<rparr>"
    by (simp add: processKanji_def e sortKanji_def)
  have r: "render (processKanji fetch paths
        \<lparr>inputText = [0x6F22, 0x5B57, 0x0A, 0x6F22, 0x5B57], kanjiSizeMm = DFin 20,
         removeDuplicates = True, sortOrder = ''none'', strokeCache = c,
         sortedKanjiLines = old\<rparr>)
     = Some [KanjiPair 0 (Fin 0)
               [KanjiDisplay 0 0x6F22 (DFin 20) True, KanjiDisplay 1 0x5B57 (DFin 20) True]
               [KanjiDisplay 0 0x6F22 (DFin 20) False, KanjiDisplay 1 0x5B57 (DFin 20) False],
             LineBreak 0,
             KanjiPair 1 (Fin 0)
               [KanjiDisplay 2 0x6F22 (DFin 20) True, KanjiDisplay 3 0x5B57 (DFin 20) True]
               [KanjiDisplay 2 0x6F22 (DFin 20) False, KanjiDisplay 3 0x5B57 (DFin 20) False]]"
    unfolding p by (simp add: render_def createDrillLayout_example m)
  from e m r pipeline_any_order [of fetch paths so c old] show ?thesis
    by (intro conjI)
qed

text \<open>
  C9. The program does not clamp the cell size. The value 200, typed in the size input or
  read from the storage, becomes the cell size as it is; the number of characters in a row
  is then 0, and the rendering of a document with a character does not return.
\<close>

theorem size_onChange_not_clamped:
  "kanjiSizeMm (size_onChange (DFin 200) st) = DFin 200
   \<and> maxKanjiPerRow (kanjiSizeMm (size_onChange (DFin 200) st)) = Fin 0
   \<and> initial_kanjiSizeMm (Some [0x32, 0x30, 0x30]) = DFin 200
   \<and> render (size_onChange (DFin 200) (st\<lparr>sortedKanjiLines := [[0x6F22]]\<rparr>)) = None"
proof -
  have m: "maxKanjiPerRow (DFin 200) = Fin 0" using maxKanjiPerRow_int [of 200] by simp
  show ?thesis
    by (simp add: size_onChange_def initial_kanjiSizeMm_200 render_def m
        createDrillLayout_diverges)
qed

text \<open>
  C10, amended. The layout returns for every document if and only if the number of
  characters in a row is at least 1 or is \<^verbatim>\<open>NaN\<close>. A cell size greater than 190 (an integer,
  any double, or the infinity) gives 0 characters in a row; the counter of the loop then
  stays 0, the loop over a non-empty line does not end, and so the layout of a document with
  a non-empty line does not return.
\<close>

theorem createDrillLayout_terminates_iff:
  "((\<forall>doc. createDrillLayout mx sz doc \<noteq> None) \<longleftrightarrow> num_le (Fin 1) mx \<or> mx = NaN)
   \<and> (190 < c \<longrightarrow> maxKanjiPerRow (DFin (of_int c)) = Fin 0)
   \<and> (round_double q = DFin q \<and> 190 < q \<longrightarrow> maxKanjiPerRow (DFin q) = Fin 0)
   \<and> maxKanjiPerRow DPosInf = Fin 0
   \<and> num_add (Fin 0) (Fin 0) = Fin 0
   \<and> (line \<noteq> [] \<longrightarrow> row_loop (Fin 0) sz li line (Fin 0) g rows = None)
   \<and> ((\<exists>l\<in>set doc'. l \<noteq> []) \<longrightarrow> createDrillLayout (Fin 0) sz doc' = None)"
proof -
  have iff: "(\<forall>doc. createDrillLayout mx sz doc \<noteq> None) \<longleftrightarrow> num_le (Fin 1) mx \<or> mx = NaN"
  proof
    assume all: "\<forall>doc. createDrillLayout mx sz doc \<noteq> None"
    show "num_le (Fin 1) mx \<or> mx = NaN"
    proof (rule ccontr)
      assume "\<not> (num_le (Fin 1) mx \<or> mx = NaN)"
      then have "stuck mx" by (simp add: stuck_iff)
      then have "createDrillLayout mx sz [[0x4E00]] = None"
        by (rule createDrillLayout_diverges) simp
      with all show False by blast
    qed
  next
    assume "num_le (Fin 1) mx \<or> mx = NaN"
    then show "\<forall>doc. createDrillLayout mx sz doc \<noteq> None"
    proof
      assume "num_le (Fin 1) mx"
      then show ?thesis by (simp add: createDrillLayout_total)
    next
      assume "mx = NaN"
      then show ?thesis using createDrillLayout_NaN by blast
    qed
  qed
  have zero: "190 < c \<longrightarrow> maxKanjiPerRow (DFin (of_int c)) = Fin 0"
    by (simp add: maxKanjiPerRow_int div_pos_pos_trivial)
  have frac: "round_double q = DFin q \<and> 190 < q \<longrightarrow> maxKanjiPerRow (DFin q) = Fin 0"
    using double_above_190 [of q] maxKanjiPerRow_above_190 [of q] by blast
  have inf: "maxKanjiPerRow DPosInf = Fin 0" by (simp add: maxKanjiPerRow_def)
  have loop: "line \<noteq> [] \<longrightarrow> row_loop (Fin 0) sz li line (Fin 0) g rows = None"
    by (simp add: row_loop_diverges)
  have lay: "(\<exists>l\<in>set doc'. l \<noteq> []) \<longrightarrow> createDrillLayout (Fin 0) sz doc' = None"
    by (simp add: createDrillLayout_diverges)
  from iff zero frac inf loop lay show ?thesis by simp
qed

theorem createDrillLayout_terminates_iff_witness:
  "maxKanjiPerRow (DFin 200) = Fin 0
   \<and> maxKanjiPerRow (DFin (381 / 2)) = Fin 0
   \<and> row_loop (Fin 0) (DFin 200) 0 [0x6F22] (Fin 0) 0 [] = None
   \<and> createDrillLayout (Fin 0) (DFin 200) [[0x6F22]] = None
   \<and> createDrillLayout (Fin 9) (DFin 20) [[0x6F22]] \<noteq> None"
proof -
  have d: "round_double (381 / 2) = DFin (381 / 2)" by code_simp
  have h: "(190::rat) < 381 / 2" by simp
  note a = createDrillLayout_terminates_iff
      [of "Fin 0" "DFin 200" 200 "381 / 2" "[0x6F22]" 0 0 "[]" "[[0x6F22]]"]
  note b = createDrillLayout_terminates_iff [of "Fin 9" "DFin 20"]
  from a have a1: "maxKanjiPerRow (DFin 200) = Fin 0" by simp
  from a d h have a2: "maxKanjiPerRow (DFin (381 / 2)) = Fin 0" by blast
  from a have a3: "row_loop (Fin 0) (DFin 200) 0 [0x6F22] (Fin 0) 0 [] = None" by simp
  from a have a4: "createDrillLayout (Fin 0) (DFin 200) [[0x6F22]] = None" by simp
  from b have b1: "createDrillLayout (Fin 9) (DFin 20) [[0x6F22]] \<noteq> None" by simp
  from a1 a2 a3 a4 b1 show ?thesis by (intro conjI)
qed

text \<open>
  C10 as it is stated fails for the cell size \<^verbatim>\<open>NaN\<close>, which \<^verbatim>\<open>parseInt\<close> gives for a stored
  string that is no number: the number of characters in a row is \<^verbatim>\<open>NaN\<close>, which is not at
  least 1, and the layout returns for every document, with a pair of empty rows for each
  non-empty line.
\<close>

theorem createDrillLayout_NaN_counterexample:
  "\<not> ((\<forall>doc. createDrillLayout (maxKanjiPerRow DNaN) DNaN doc \<noteq> None)
        \<longleftrightarrow> num_le (Fin 1) (maxKanjiPerRow DNaN))
   \<and> createDrillLayout (maxKanjiPerRow DNaN) DNaN [[0x6F22]] = Some [KanjiPair 0 (Fin 0) [] []]
   \<and> initial_kanjiSizeMm (Some [0x61, 0x62, 0x63]) = DNaN"
proof -
  have m: "maxKanjiPerRow DNaN = NaN" by (simp add: maxKanjiPerRow_def)
  have a: "\<forall>doc. createDrillLayout NaN DNaN doc \<noteq> None"
    using createDrillLayout_NaN by blast
  have b: "\<not> num_le (Fin 1) NaN" by simp
  have e: "createDrillLayout NaN DNaN [[0x6F22]] = Some [KanjiPair 0 (Fin 0) [] []]"
    by (simp add: createDrillLayout_def row_loop_NaN row_pair_def display_row_def)
  from a b e initial_kanjiSizeMm_abc show ?thesis unfolding m by blast
qed

end
